theory Spec2Isabelle
  imports Complex_Main "HOL-Library.AList" "HOL-Library.Word"
begin

section \<open>Strings\<close>

text \<open>
  A JavaScript string is the sequence of its UTF-16 code units. The string literals of
  the module are ASCII; \<open>str\<close> gives the code units of such a literal.
\<close>

type_synonym code_unit = "16 word"

type_synonym jstring = "code_unit list"

definition str :: "string \<Rightarrow> jstring" where
  "str s = map of_char s"

definition backslash :: code_unit where
  "backslash = 0x5C"

definition slash :: code_unit where
  "slash = 0x2F"

section \<open>Values, exceptions and diagnostics\<close>

text \<open>
  The validators receive data read from JSON files. A value is null, a boolean, a
  number, a string, an array or an object. Numbers are the finite JavaScript numbers,
  taken as rationals; an object is its list of own properties in insertion order, read
  with \<open>map_of\<close> (the value of \<open>o[k]\<close>, \<open>None\<close> for \<open>undefined\<close>), written with
  \<open>AList.update\<close> (\<open>o[k] = v\<close>: in place when the key exists, appended otherwise) and
  \<open>AList.delete\<close> (\<open>delete o[k]\<close>).
\<close>

datatype json =
    JNull
  | JBool bool
  | JNum rat
  | JStr jstring
  | JArr "json list"
  | JObj "(jstring \<times> json) list"

text \<open>The exceptions a validator can throw, and the lines it writes with \<open>log.error\<close>.\<close>

datatype js_error = TypeError | SyntaxError

datatype js_type = T_object | T_boolean | T_number | T_string

datatype joi_error =
    any_required | any_only
  | boolean_base
  | number_base | number_unsafe | number_integer | number_min
  | string_base | string_empty | string_pattern | string_uri
  | array_base | array_sparse
  | object_base

datatype log_entry =
    Invalid_spellchecker_location
  | Not_an_object js_type
  | No_schema
  | Validation_failed joi_error

text \<open>
  A call either throws (\<open>Inl\<close>) or returns (\<open>Inr\<close>) the lines logged and the value
  returned, \<open>None\<close> for \<open>null\<close>.
\<close>

type_synonym outcome = "js_error + (log_entry list \<times> json option)"

fun typeof :: "json \<Rightarrow> js_type" where
  "typeof JNull = T_object"
| "typeof (JBool b) = T_boolean"
| "typeof (JNum n) = T_number"
| "typeof (JStr s) = T_string"
| "typeof (JArr xs) = T_object"
| "typeof (JObj kvs) = T_object"

text \<open>JavaScript truthiness, as the \<open>&&\<close> of the validators reads a value.\<close>

fun truthy :: "json option \<Rightarrow> bool" where
  "truthy None = False"
| "truthy (Some JNull) = False"
| "truthy (Some (JBool b)) = b"
| "truthy (Some (JNum n)) = (n \<noteq> 0)"
| "truthy (Some (JStr s)) = (s \<noteq> [])"
| "truthy (Some (JArr xs)) = True"
| "truthy (Some (JObj kvs)) = True"

text \<open>Property access \<open>data.k\<close> on a value that is neither null nor undefined.\<close>

fun get_prop :: "json \<Rightarrow> jstring \<Rightarrow> json option" where
  "get_prop (JObj kvs) k = map_of kvs k"
| "get_prop v k = None"

section \<open>What the module imports\<close>

text \<open>
  The module calls functions whose code is not part of it. They are parameters of the
  model, so every theorem below holds whatever they compute:
  \<^item> \<open>urlUtils.isValidURL\<close>, applied to whatever value the record holds;
  \<^item> \<open>JSON.parse\<close> on a string, \<open>None\<close> when it throws;
  \<^item> inside the schema library, the reading of a string as a number (the string is not
    numeric, or it is numeric but cannot be converted without loss, or it is a number),
    and the pattern of a URI;
  \<^item> \<open>String.prototype.toLowerCase\<close> on a string that holds a code unit from 256 up:
    there the result follows the case tables of the Unicode version the engine was
    built with.
\<close>

datatype coerced = No_match | Unsafe | Coerced rat

record externals =
  isValidURL :: "json \<Rightarrow> bool"
  JSON_parse :: "jstring \<Rightarrow> json option"
  coerce_number :: "jstring \<Rightarrow> coerced"
  isUri :: "jstring \<Rightarrow> bool"
  toLowerCase_unicode :: "jstring \<Rightarrow> jstring"

section \<open>Operations on strings\<close>

text \<open>
  \<open>s.toLowerCase()\<close> is the default case conversion of Unicode. On a string whose code
  units are all below 256 (Basic Latin and Latin-1 Supplement) it works unit by unit and
  is the same in every version of Unicode: the letters A to Z, and \<open>U+00C0\<close> to \<open>U+00DE\<close>
  except the multiplication sign \<open>U+00D7\<close>, move up by 32, and every other unit stays. On
  any other string the result depends on the case tables of the engine and on the
  context of a letter, and is read from the parameter.
\<close>

definition lower_unit :: "code_unit \<Rightarrow> code_unit" where
  "lower_unit c =
     (if (0x41 \<le> c \<and> c \<le> 0x5A) \<or> (0xC0 \<le> c \<and> c \<le> 0xDE \<and> c \<noteq> 0xD7) then c + 0x20 else c)"

definition toLowerCase :: "externals \<Rightarrow> jstring \<Rightarrow> jstring" where
  "toLowerCase ext s =
     (if list_all (\<lambda>c. c < 0x100) s then map lower_unit s else toLowerCase_unicode ext s)"

text \<open>\<open>s.includes(t)\<close>: \<open>t\<close> occurs in \<open>s\<close>, at the start or further on.\<close>

fun starts_with :: "jstring \<Rightarrow> jstring \<Rightarrow> bool" where
  "starts_with s [] = True"
| "starts_with [] (t # ts) = False"
| "starts_with (c # cs) (t # ts) = (c = t \<and> starts_with cs ts)"

fun includes_str :: "jstring \<Rightarrow> jstring \<Rightarrow> bool" where
  "includes_str [] t = (t = [])"
| "includes_str (c # cs) t = (starts_with (c # cs) t \<or> includes_str cs t)"

text \<open>
  \<open>s.replace(/\\/gi, '/')\<close>: the pattern matches one backslash; with the flag \<open>g\<close> the
  string is scanned from left to right and every match is replaced by a slash. The flag
  \<open>i\<close> changes nothing, a backslash having no case.
\<close>

fun replace_backslashes :: "jstring \<Rightarrow> jstring" where
  "replace_backslashes [] = []"
| "replace_backslashes (c # cs) =
     (if c = backslash then slash # replace_backslashes cs else c # replace_backslashes cs)"

text \<open>
  The two patterns of the schemas. Their classes \<open>[a-z]\<close> and \<open>[A-Z]\<close> hold ASCII letters
  only, also under the flag \<open>i\<close>, which never maps a unit from 128 up to an ASCII one.
\<close>

definition is_lower :: "code_unit \<Rightarrow> bool" where
  "is_lower c = (0x61 \<le> c \<and> c \<le> 0x7A)"

definition is_upper :: "code_unit \<Rightarrow> bool" where
  "is_upper c = (0x41 \<le> c \<and> c \<le> 0x5A)"

definition hyphen :: code_unit where
  "hyphen = 0x2D"

definition colon :: code_unit where
  "colon = 0x3A"

text \<open>The pattern \<open>/^[a-z]{2}-[A-Z]{2}$/\<close> of \<open>spellCheckerLocale\<close>.\<close>

fun locale_rx :: "jstring \<Rightarrow> bool" where
  "locale_rx [a, b, c, d, e] =
     (is_lower a \<and> is_lower b \<and> c = hyphen \<and> is_upper d \<and> is_upper e)"
| "locale_rx s = False"

text \<open>The pattern \<open>/^[a-z-]+:$/i\<close> of the allowed protocols.\<close>

definition protocol_rx :: "jstring \<Rightarrow> bool" where
  "protocol_rx s =
     (2 \<le> length s \<and> last s = colon \<and>
      list_all (\<lambda>c. is_lower c \<or> is_upper c \<or> c = hyphen) (butlast s))"

section \<open>The schema library\<close>

text \<open>
  The schemas are built and interpreted by the library \<open>@hapi/joi\<close>, which is not part
  of the repository. This section writes out what the library does for the schema types,
  flags and rules that the module uses, as of version 16 of the library, under the one
  option the module passes (\<open>stripUnknown: true\<close>) and the defaults of the others
  (\<open>convert\<close>, \<open>abortEarly\<close>, \<open>presence: optional\<close>).

  A schema is a type with its flags: the rules added to it, the values allowed besides
  the type (\<open>allow\<close>), whether only those are valid (\<open>valid\<close>), whether the key is
  required, and the default. An array schema carries the schema of its items, an object
  schema its keys in declaration order and its key patterns.
\<close>

datatype presence = Optional | Required

datatype rule = Integer | Min rat | Regex "jstring \<Rightarrow> bool" | Uri

record flags =
  rules :: "rule list"
  allowed :: "json list"
  only :: bool
  presence :: presence
  dflt :: "json option"

datatype schema =
    Any flags
  | Boolean flags
  | Number flags
  | String flags
  | Array flags schema
  | Object flags "(jstring \<times> schema) list" "(schema \<times> schema) list"

definition no_flags :: flags where
  "no_flags = \<lparr>rules = [], allowed = [], only = False, presence = Optional, dflt = None\<rparr>"

fun flags_of :: "schema \<Rightarrow> flags" where
  "flags_of (Any f) = f"
| "flags_of (Boolean f) = f"
| "flags_of (Number f) = f"
| "flags_of (String f) = f"
| "flags_of (Array f s) = f"
| "flags_of (Object f ks ps) = f"

fun map_flags :: "(flags \<Rightarrow> flags) \<Rightarrow> schema \<Rightarrow> schema" where
  "map_flags g (Any f) = Any (g f)"
| "map_flags g (Boolean f) = Boolean (g f)"
| "map_flags g (Number f) = Number (g f)"
| "map_flags g (String f) = String (g f)"
| "map_flags g (Array f s) = Array (g f) s"
| "map_flags g (Object f ks ps) = Object (g f) ks ps"

subsection \<open>The builders\<close>

definition Joi_any :: schema where
  "Joi_any = Any no_flags"

definition Joi_boolean :: schema where
  "Joi_boolean = Boolean no_flags"

definition Joi_number :: schema where
  "Joi_number = Number no_flags"

definition Joi_string :: schema where
  "Joi_string = String no_flags"

definition Joi_array_items :: "schema \<Rightarrow> schema" where
  "Joi_array_items s = Array no_flags s"

definition Joi_object :: "(jstring \<times> schema) list \<Rightarrow> schema" where
  "Joi_object ks = Object no_flags ks []"

definition joi_required :: "schema \<Rightarrow> schema" where
  "joi_required = map_flags (\<lambda>f. f\<lparr>presence := Required\<rparr>)"

definition joi_default :: "json \<Rightarrow> schema \<Rightarrow> schema" where
  "joi_default v = map_flags (\<lambda>f. f\<lparr>dflt := Some v\<rparr>)"

definition joi_allow :: "json list \<Rightarrow> schema \<Rightarrow> schema" where
  "joi_allow vs = map_flags (\<lambda>f. f\<lparr>allowed := allowed f @ vs\<rparr>)"

definition joi_valid :: "json list \<Rightarrow> schema \<Rightarrow> schema" where
  "joi_valid vs = map_flags (\<lambda>f. f\<lparr>allowed := allowed f @ vs, only := True\<rparr>)"

definition joi_integer :: "schema \<Rightarrow> schema" where
  "joi_integer = map_flags (\<lambda>f. f\<lparr>rules := rules f @ [Integer]\<rparr>)"

definition joi_min :: "rat \<Rightarrow> schema \<Rightarrow> schema" where
  "joi_min m = map_flags (\<lambda>f. f\<lparr>rules := rules f @ [Min m]\<rparr>)"

definition joi_regex :: "(jstring \<Rightarrow> bool) \<Rightarrow> schema \<Rightarrow> schema" where
  "joi_regex p = map_flags (\<lambda>f. f\<lparr>rules := rules f @ [Regex p]\<rparr>)"

definition joi_uri :: "schema \<Rightarrow> schema" where
  "joi_uri = map_flags (\<lambda>f. f\<lparr>rules := rules f @ [Uri]\<rparr>)"

fun joi_pattern :: "schema \<Rightarrow> schema \<Rightarrow> schema \<Rightarrow> schema" where
  "joi_pattern p child (Object f ks ps) = Object f ks (ps @ [(p, child)])"
| "joi_pattern p child s = s"

subsection \<open>Validation\<close>

definition MAX_SAFE_INTEGER :: rat where
  "MAX_SAFE_INTEGER = 9007199254740991"

text \<open>The test of the \<open>integer\<close> rule, \<open>Math.trunc(value) - value === 0\<close>.\<close>

definition is_integer :: "rat \<Rightarrow> bool" where
  "is_integer n = (of_int \<lfloor>n\<rfloor> = n)"

type_synonym validator = "json option \<Rightarrow> joi_error + json option"

text \<open>
  With the default \<open>convert\<close> preference a boolean schema reads the strings \<open>true\<close> and
  \<open>false\<close> in any case, and a number schema reads a numeric string; the other types
  used here convert nothing (in particular a string is not parsed into an array or an
  object).
\<close>

fun coerce_boolean :: "externals \<Rightarrow> json \<Rightarrow> joi_error + json" where
  "coerce_boolean ext (JStr s) =
     (if toLowerCase ext s = str ''true'' then Inr (JBool True)
      else if toLowerCase ext s = str ''false'' then Inr (JBool False)
      else Inr (JStr s))"
| "coerce_boolean ext v = Inr v"

fun coerce_num :: "externals \<Rightarrow> json \<Rightarrow> joi_error + json" where
  "coerce_num ext (JStr s) =
     (case coerce_number ext s of
        No_match \<Rightarrow> Inr (JStr s)
      | Unsafe \<Rightarrow> Inl number_unsafe
      | Coerced n \<Rightarrow> Inr (JNum n))"
| "coerce_num ext v = Inr v"

text \<open>The type checks.\<close>

fun base_boolean :: "json \<Rightarrow> joi_error + json" where
  "base_boolean (JBool b) = Inr (JBool b)"
| "base_boolean v = Inl boolean_base"

fun base_number :: "json \<Rightarrow> joi_error + json" where
  "base_number (JNum n) =
     (if n > MAX_SAFE_INTEGER \<or> n < - MAX_SAFE_INTEGER then Inl number_unsafe
      else Inr (JNum n))"
| "base_number v = Inl number_base"

fun base_string :: "json \<Rightarrow> joi_error + json" where
  "base_string (JStr s) = (if s = [] then Inl string_empty else Inr (JStr s))"
| "base_string v = Inl string_base"

text \<open>The items of an array: each must match the items' schema; none is removed.\<close>

fun validate_items :: "validator \<Rightarrow> json list \<Rightarrow> joi_error + json list" where
  "validate_items item [] = Inr []"
| "validate_items item (x # xs) =
     (case item (Some x) of
        Inl e \<Rightarrow> Inl e
      | Inr None \<Rightarrow> Inl array_sparse
      | Inr (Some y) \<Rightarrow>
          (case validate_items item xs of Inl e \<Rightarrow> Inl e | Inr ys \<Rightarrow> Inr (y # ys)))"

fun base_array :: "validator \<Rightarrow> json \<Rightarrow> joi_error + json" where
  "base_array item (JArr xs) =
     (case validate_items item xs of Inl e \<Rightarrow> Inl e | Inr ys \<Rightarrow> Inr (JArr ys))"
| "base_array item v = Inl array_base"

text \<open>
  The keys of an object schema, in declaration order, on a copy of the value: the
  result of a key replaces its value, and a default is added for a missing key.
\<close>

fun validate_keys ::
  "(jstring \<times> validator) list \<Rightarrow> (jstring \<times> json) list \<Rightarrow> joi_error + (jstring \<times> json) list"
where
  "validate_keys [] kvs = Inr kvs"
| "validate_keys ((k, child) # ks) kvs =
     (case child (map_of kvs k) of
        Inl e \<Rightarrow> Inl e
      | Inr None \<Rightarrow> validate_keys ks (AList.delete k kvs)
      | Inr (Some v) \<Rightarrow> validate_keys ks (AList.update k v kvs))"

text \<open>
  Then the keys the schema does not declare, in the order of the object: the first
  pattern whose key schema accepts the key validates the value, which replaces the old
  one; a key that no pattern matches is deleted (\<open>stripUnknown\<close>).
\<close>

fun match_pattern ::
  "(validator \<times> validator) list \<Rightarrow> jstring \<Rightarrow> json \<Rightarrow> (joi_error + json option) option"
where
  "match_pattern [] k v = None"
| "match_pattern ((p, child) # ps) k v =
     (case p (Some (JStr k)) of
        Inl e \<Rightarrow> match_pattern ps k v
      | Inr r \<Rightarrow> Some (child (Some v)))"

fun validate_unknown ::
  "jstring list \<Rightarrow> (validator \<times> validator) list \<Rightarrow> (jstring \<times> json) list \<Rightarrow>
   joi_error + (jstring \<times> json) list"
where
  "validate_unknown declared ps [] = Inr []"
| "validate_unknown declared ps ((k, v) # kvs) =
     (if k \<in> set declared
      then (case validate_unknown declared ps kvs of
              Inl e \<Rightarrow> Inl e
            | Inr out \<Rightarrow> Inr ((k, v) # out))
      else (case match_pattern ps k v of
              None \<Rightarrow> validate_unknown declared ps kvs
            | Some (Inl e) \<Rightarrow> Inl e
            | Some (Inr None) \<Rightarrow> validate_unknown declared ps kvs
            | Some (Inr (Some w)) \<Rightarrow>
                (case validate_unknown declared ps kvs of
                   Inl e \<Rightarrow> Inl e
                 | Inr out \<Rightarrow> Inr ((k, w) # out))))"

fun base_object ::
  "(jstring \<times> validator) list \<Rightarrow> (validator \<times> validator) list \<Rightarrow> json \<Rightarrow> joi_error + json"
where
  "base_object ks ps (JObj kvs) =
     (case validate_keys ks kvs of
        Inl e \<Rightarrow> Inl e
      | Inr kvs1 \<Rightarrow>
          (case validate_unknown (map fst ks) ps kvs1 of
             Inl e \<Rightarrow> Inl e
           | Inr kvs2 \<Rightarrow> Inr (JObj kvs2)))"
| "base_object ks ps v = Inl object_base"

text \<open>The rules of a schema, in the order they were added.\<close>

fun check_rule :: "externals \<Rightarrow> rule \<Rightarrow> json \<Rightarrow> joi_error option" where
  "check_rule ext Integer (JNum n) = (if is_integer n then None else Some number_integer)"
| "check_rule ext (Min m) (JNum n) = (if m \<le> n then None else Some number_min)"
| "check_rule ext (Regex p) (JStr s) = (if p s then None else Some string_pattern)"
| "check_rule ext Uri (JStr s) = (if isUri ext s then None else Some string_uri)"
| "check_rule ext r v = None"

fun check_rules :: "externals \<Rightarrow> rule list \<Rightarrow> json \<Rightarrow> joi_error option" where
  "check_rules ext [] v = None"
| "check_rules ext (r # rs) v =
     (case check_rule ext r v of Some e \<Rightarrow> Some e | None \<Rightarrow> check_rules ext rs v)"

text \<open>
  The steps every type shares, in the library's order: conversion; presence (a missing
  required key is an error whether or not a default is declared, a missing optional key
  gets the default); the allowed values; the type; the rules. The first error ends the
  validation (\<open>abortEarly\<close>).
\<close>

definition validate_with ::
  "externals \<Rightarrow> flags \<Rightarrow> (json \<Rightarrow> joi_error + json) \<Rightarrow> (json \<Rightarrow> joi_error + json) \<Rightarrow> validator"
where
  "validate_with ext f coerce base item =
     (case item of
        None \<Rightarrow>
          (case presence f of
             Required \<Rightarrow> Inl any_required
           | Optional \<Rightarrow> Inr (dflt f))
      | Some v \<Rightarrow>
          (case coerce v of
             Inl e \<Rightarrow> Inl e
           | Inr v1 \<Rightarrow>
               if v1 \<in> set (allowed f) then Inr (Some v1)
               else if only f then Inl any_only
               else (case base v1 of
                       Inl e \<Rightarrow> Inl e
                     | Inr v2 \<Rightarrow>
                         (case check_rules ext (rules f) v2 of
                            Some e \<Rightarrow> Inl e
                          | None \<Rightarrow> Inr (Some v2)))))"

primrec validate :: "externals \<Rightarrow> schema \<Rightarrow> validator" where
  "validate ext (Any f) = validate_with ext f Inr Inr"
| "validate ext (Boolean f) = validate_with ext f (coerce_boolean ext) base_boolean"
| "validate ext (Number f) = validate_with ext f (coerce_num ext) base_number"
| "validate ext (String f) = validate_with ext f Inr base_string"
| "validate ext (Array f s) = validate_with ext f Inr (base_array (validate ext s))"
| "validate ext (Object f ks ps) =
     validate_with ext f Inr
       (base_object (map (map_prod id (validate ext)) ks)
                    (map (map_prod (validate ext) (validate ext)) ps))"


section \<open>The schemas\<close>

definition defaultWindowWidth :: rat where
  "defaultWindowWidth = 1000"

definition defaultWindowHeight :: rat where
  "defaultWindowHeight = 700"

definition minWindowWidth :: rat where
  "minWindowWidth = 400"

definition minWindowHeight :: rat where
  "minWindowHeight = 240"

definition argsSchema :: schema where
  "argsSchema = Joi_object
     [(str ''hidden'', Joi_boolean),
      (str ''disableDevMode'', Joi_boolean),
      (str ''dataDir'', Joi_string),
      (str ''version'', Joi_boolean)]"

definition boundsInfoSchema :: schema where
  "boundsInfoSchema = Joi_object
     [(str ''x'', joi_default (JNum 0) (joi_integer Joi_number)),
      (str ''y'', joi_default (JNum 0) (joi_integer Joi_number)),
      (str ''width'', joi_default (JNum defaultWindowWidth)
          (joi_required (joi_min minWindowWidth (joi_integer Joi_number)))),
      (str ''height'', joi_default (JNum defaultWindowHeight)
          (joi_required (joi_min minWindowHeight (joi_integer Joi_number)))),
      (str ''maximized'', joi_default (JBool False) Joi_boolean),
      (str ''fullscreen'', joi_default (JBool False) Joi_boolean)]"

definition appStateSchema :: schema where
  "appStateSchema = Joi_object
     [(str ''lastAppVersion'', Joi_string),
      (str ''skippedVersion'', Joi_string),
      (str ''updateCheckedDate'', Joi_string)]"

definition configDataSchemaV0 :: schema where
  "configDataSchemaV0 = Joi_object [(str ''url'', joi_required Joi_string)]"

definition notificationsSchema :: schema where
  "notificationsSchema = Joi_object
     [(str ''flashWindow'', joi_default (JNum 0) (joi_valid [JNum 0, JNum 2] Joi_any)),
      (str ''bounceIcon'', joi_default (JBool False) Joi_boolean),
      (str ''bounceIconType'', joi_default (JStr (str ''informational''))
          (joi_valid [JStr (str ''informational''), JStr (str ''critical'')] (joi_allow [JStr []] Joi_any)))]"

definition trayIconThemeSchema :: schema where
  "trayIconThemeSchema =
     joi_default (JStr (str ''light'')) (joi_valid [JStr (str ''light''), JStr (str ''dark'')] (joi_allow [JStr []] Joi_any))"

definition spellCheckerLocaleSchema :: schema where
  "spellCheckerLocaleSchema = joi_default (JStr (str ''en-US'')) (joi_regex locale_rx Joi_string)"

definition configDataSchemaV1 :: schema where
  "configDataSchemaV1 = Joi_object
     [(str ''version'', joi_default (JNum 1) (joi_min 1 Joi_number)),
      (str ''teams'', joi_default (JArr [])
          (Joi_array_items (Joi_object
             [(str ''name'', joi_required Joi_string),
              (str ''url'', joi_required Joi_string)]))),
      (str ''showTrayIcon'', joi_default (JBool False) Joi_boolean),
      (str ''trayIconTheme'', trayIconThemeSchema),
      (str ''minimizeToTray'', joi_default (JBool False) Joi_boolean),
      (str ''notifications'', notificationsSchema),
      (str ''showUnreadBadge'', joi_default (JBool True) Joi_boolean),
      (str ''useSpellChecker'', joi_default (JBool True) Joi_boolean),
      (str ''enableHardwareAcceleration'', joi_default (JBool True) Joi_boolean),
      (str ''autostart'', joi_default (JBool True) Joi_boolean),
      (str ''spellCheckerLocale'', spellCheckerLocaleSchema)]"

definition configDataSchemaV2 :: schema where
  "configDataSchemaV2 = Joi_object
     [(str ''version'', joi_default (JNum 2) (joi_min 2 Joi_number)),
      (str ''teams'', joi_default (JArr [])
          (Joi_array_items (Joi_object
             [(str ''name'', joi_required Joi_string),
              (str ''url'', joi_required Joi_string),
              (str ''order'', joi_min 0 (joi_integer Joi_number))]))),
      (str ''showTrayIcon'', joi_default (JBool False) Joi_boolean),
      (str ''trayIconTheme'', trayIconThemeSchema),
      (str ''minimizeToTray'', joi_default (JBool False) Joi_boolean),
      (str ''notifications'', notificationsSchema),
      (str ''showUnreadBadge'', joi_default (JBool True) Joi_boolean),
      (str ''useSpellChecker'', joi_default (JBool True) Joi_boolean),
      (str ''enableHardwareAcceleration'', joi_default (JBool True) Joi_boolean),
      (str ''autostart'', joi_default (JBool True) Joi_boolean),
      (str ''spellCheckerLocale'', spellCheckerLocaleSchema),
      (str ''spellCheckerURL'', joi_allow [JNull] Joi_string),
      (str ''darkMode'', joi_default (JBool False) Joi_boolean),
      (str ''downloadLocation'', Joi_string)]"

definition configDataSchemaV3 :: schema where
  "configDataSchemaV3 = Joi_object
     [(str ''version'', joi_default (JNum 2) (joi_min 2 Joi_number)),
      (str ''teams'', joi_default (JArr [])
          (Joi_array_items (Joi_object
             [(str ''name'', joi_required Joi_string),
              (str ''url'', joi_required Joi_string),
              (str ''order'', joi_min 0 (joi_integer Joi_number)),
              (str ''lastActiveTab'', joi_default (JNum 0) (joi_min 0 (joi_integer Joi_number))),
              (str ''tabs'', joi_default (JArr [])
                  (Joi_array_items (Joi_object
                     [(str ''name'', joi_required Joi_string),
                      (str ''order'', joi_min 0 (joi_integer Joi_number)),
                      (str ''isClosed'', joi_default (JBool False) Joi_boolean)])))]))),
      (str ''showTrayIcon'', joi_default (JBool False) Joi_boolean),
      (str ''trayIconTheme'', trayIconThemeSchema),
      (str ''minimizeToTray'', joi_default (JBool False) Joi_boolean),
      (str ''notifications'', notificationsSchema),
      (str ''showUnreadBadge'', joi_default (JBool True) Joi_boolean),
      (str ''useSpellChecker'', joi_default (JBool True) Joi_boolean),
      (str ''enableHardwareAcceleration'', joi_default (JBool True) Joi_boolean),
      (str ''autostart'', joi_default (JBool True) Joi_boolean),
      (str ''spellCheckerLocale'', spellCheckerLocaleSchema),
      (str ''spellCheckerURL'', joi_allow [JNull] Joi_string),
      (str ''darkMode'', joi_default (JBool False) Joi_boolean),
      (str ''downloadLocation'', Joi_string),
      (str ''lastActiveTeam'', joi_default (JNum 0) (joi_min 0 (joi_integer Joi_number)))]"

definition certificateStoreSchema :: schema where
  "certificateStoreSchema =
     joi_pattern (joi_uri Joi_string)
       (Joi_object [(str ''data'', Joi_string), (str ''issuerName'', Joi_string)])
       (Joi_object [])"

definition originPermissionsSchema :: schema where
  "originPermissionsSchema = Joi_object [(str ''canBasicAuth'', joi_default (JBool False) Joi_boolean)]"

definition trustedOriginsSchema :: schema where
  "trustedOriginsSchema =
     joi_pattern (joi_uri Joi_string)
       (Joi_object [(str ''canBasicAuth'', joi_default (JBool False) Joi_boolean)])
       (Joi_object [])"

definition allowedProtocolsSchema :: schema where
  "allowedProtocolsSchema = Joi_array_items (joi_regex protocol_rx Joi_string)"

section \<open>The validators\<close>

definition validateAgainstSchema ::
  "externals \<Rightarrow> json \<Rightarrow> schema option \<Rightarrow> log_entry list \<times> json option"
where
  "validateAgainstSchema ext data schema =
     (if typeof data \<noteq> T_object then ([Not_an_object (typeof data)], None)
      else case schema of
             None \<Rightarrow> ([No_schema], None)
           | Some s \<Rightarrow>
               (case validate ext s (Some data) of
                  Inl e \<Rightarrow> ([Validation_failed e], None)
                | Inr v \<Rightarrow> ([], v)))"

definition validateArgs :: "externals \<Rightarrow> json \<Rightarrow> outcome" where
  "validateArgs ext data = Inr (validateAgainstSchema ext data (Some argsSchema))"

definition validateBoundsInfo :: "externals \<Rightarrow> json \<Rightarrow> outcome" where
  "validateBoundsInfo ext data = Inr (validateAgainstSchema ext data (Some boundsInfoSchema))"

definition validateAppState :: "externals \<Rightarrow> json \<Rightarrow> outcome" where
  "validateAppState ext data = Inr (validateAgainstSchema ext data (Some appStateSchema))"

definition validateV0ConfigData :: "externals \<Rightarrow> json \<Rightarrow> outcome" where
  "validateV0ConfigData ext data = Inr (validateAgainstSchema ext data (Some configDataSchemaV0))"

text \<open>\<open>cleanURL\<close>, on the strings its signature declares.\<close>

definition cleanURL :: "externals \<Rightarrow> jstring \<Rightarrow> jstring" where
  "cleanURL ext url =
     (if includes_str url [backslash] then replace_backslashes (toLowerCase ext url) else url)"

text \<open>
  The same statements on the value a team really holds: \<open>includes\<close> exists on strings
  and on arrays only, \<open>toLowerCase\<close> on strings only; anything else throws.
\<close>

fun clean_value :: "externals \<Rightarrow> json option \<Rightarrow> js_error + json" where
  "clean_value ext (Some (JStr url)) = Inr (JStr (cleanURL ext url))"
| "clean_value ext (Some (JArr xs)) =
     (if JStr [backslash] \<in> set xs then Inl TypeError else Inr (JArr xs))"
| "clean_value ext v = Inl TypeError"

text \<open>\<open>teams.map\<close> with a callback that can throw.\<close>

fun map_throw :: "('a \<Rightarrow> js_error + 'b) \<Rightarrow> 'a list \<Rightarrow> js_error + 'b list" where
  "map_throw f [] = Inr []"
| "map_throw f (x # xs) =
     (case f x of
        Inl e \<Rightarrow> Inl e
      | Inr y \<Rightarrow> (case map_throw f xs of Inl e \<Rightarrow> Inl e | Inr ys \<Rightarrow> Inr (y # ys)))"

text \<open>
  The callback of version 1, \<open>({name, url}) => ({name, url: updatedURL})\<close>:
  destructuring null throws, and a team with no \<open>name\<close> gives an object whose \<open>name\<close> is
  undefined, written here as an object without that key.
\<close>

fun clean_team_v1 :: "externals \<Rightarrow> json \<Rightarrow> js_error + json" where
  "clean_team_v1 ext JNull = Inl TypeError"
| "clean_team_v1 ext team =
     (case clean_value ext (get_prop team (str ''url'')) of
        Inl e \<Rightarrow> Inl e
      | Inr u \<Rightarrow>
          Inr (JObj ((case get_prop team (str ''name'') of None \<Rightarrow> [] | Some n \<Rightarrow> [(str ''name'', n)])
                     @ [(str ''url'', u)])))"

text \<open>
  The callback of versions 2 and 3, \<open>(team) => ({...team, url: cleanURL(team.url)})\<close>.
  Only an object with a \<open>url\<close> gets past \<open>cleanURL\<close>, and the spread copies its keys.
\<close>

fun clean_team :: "externals \<Rightarrow> json \<Rightarrow> js_error + json" where
  "clean_team ext JNull = Inl TypeError"
| "clean_team ext (JObj kvs) =
     (case clean_value ext (map_of kvs (str ''url'')) of
        Inl e \<Rightarrow> Inl e
      | Inr u \<Rightarrow> Inr (JObj (AList.update (str ''url'') u kvs)))"
| "clean_team ext team = Inl TypeError"

text \<open>The filter \<open>({url}) => urlUtils.isValidURL(url)\<close>; a mapped team always has a \<open>url\<close>.\<close>

definition has_valid_url :: "externals \<Rightarrow> json \<Rightarrow> bool" where
  "has_valid_url ext team =
     (case get_prop team (str ''url'') of Some u \<Rightarrow> isValidURL ext u | None \<Rightarrow> False)"

fun set_prop :: "json \<Rightarrow> jstring \<Rightarrow> json \<Rightarrow> json" where
  "set_prop (JObj kvs) k v = JObj (AList.update k v kvs)"
| "set_prop d k v = d"

fun delete_prop :: "json \<Rightarrow> jstring \<Rightarrow> json" where
  "delete_prop (JObj kvs) k = JObj (AList.delete k kvs)"
| "delete_prop d k = d"

text \<open>
  The first block of the three configuration validators: when \<open>data.teams\<close> is a
  non-empty array, clean every url, keep the teams whose url is valid, and store the
  result in \<open>data.teams\<close>. Reading \<open>data.teams\<close> of null throws.
\<close>

definition replace_teams ::
  "externals \<Rightarrow> (json \<Rightarrow> js_error + json) \<Rightarrow> json \<Rightarrow> js_error + json"
where
  "replace_teams ext callback data =
     (case data of
        JNull \<Rightarrow> Inl TypeError
      | _ \<Rightarrow>
          (case get_prop data (str ''teams'') of
             Some (JArr (t # ts)) \<Rightarrow>
               (case map_throw callback (t # ts) of
                  Inl e \<Rightarrow> Inl e
                | Inr teams \<Rightarrow> Inr (set_prop data (str ''teams'') (JArr (filter (has_valid_url ext) teams))))
           | _ \<Rightarrow> Inr data))"

text \<open>
  The second block of versions 2 and 3: a truthy \<open>spellCheckerURL\<close> that is not a valid
  URL is logged and deleted.
\<close>

definition drop_spellCheckerURL :: "externals \<Rightarrow> json \<Rightarrow> log_entry list \<times> json" where
  "drop_spellCheckerURL ext data =
     (case get_prop data (str ''spellCheckerURL'') of
        None \<Rightarrow> ([], data)
      | Some u \<Rightarrow>
          if truthy (Some u) \<and> \<not> isValidURL ext u
          then ([Invalid_spellchecker_location], delete_prop data (str ''spellCheckerURL''))
          else ([], data))"

definition validateV1ConfigData :: "externals \<Rightarrow> json \<Rightarrow> outcome" where
  "validateV1ConfigData ext data =
     (case replace_teams ext (clean_team_v1 ext) data of
        Inl e \<Rightarrow> Inl e
      | Inr data1 \<Rightarrow> Inr (validateAgainstSchema ext data1 (Some configDataSchemaV1)))"

definition validateV2ConfigData :: "externals \<Rightarrow> json \<Rightarrow> outcome" where
  "validateV2ConfigData ext data =
     (case replace_teams ext (clean_team ext) data of
        Inl e \<Rightarrow> Inl e
      | Inr data1 \<Rightarrow>
          (case drop_spellCheckerURL ext data1 of
             (log1, data2) \<Rightarrow>
               (case validateAgainstSchema ext data2 (Some configDataSchemaV2) of
                  (log2, r) \<Rightarrow> Inr (log1 @ log2, r))))"

definition validateV3ConfigData :: "externals \<Rightarrow> json \<Rightarrow> outcome" where
  "validateV3ConfigData ext data =
     (case replace_teams ext (clean_team ext) data of
        Inl e \<Rightarrow> Inl e
      | Inr data1 \<Rightarrow>
          (case drop_spellCheckerURL ext data1 of
             (log1, data2) \<Rightarrow>
               (case validateAgainstSchema ext data2 (Some configDataSchemaV3) of
                  (log2, r) \<Rightarrow> Inr (log1 @ log2, r))))"

text \<open>
  \<open>typeof data === 'object' ? data : JSON.parse(data)\<close>. \<open>JSON.parse\<close> reads its
  argument as a string: a string is parsed, and throws when it is not JSON; a boolean or
  a number is read back as itself.
\<close>

fun parse_unless_object :: "externals \<Rightarrow> json \<Rightarrow> js_error + json" where
  "parse_unless_object ext (JStr s) =
     (case JSON_parse ext s of None \<Rightarrow> Inl SyntaxError | Some v \<Rightarrow> Inr v)"
| "parse_unless_object ext v = Inr v"

definition validateCertificateStore :: "externals \<Rightarrow> json \<Rightarrow> outcome" where
  "validateCertificateStore ext data =
     (case parse_unless_object ext data of
        Inl e \<Rightarrow> Inl e
      | Inr jsonData \<Rightarrow> Inr (validateAgainstSchema ext jsonData (Some certificateStoreSchema)))"

definition validateAllowedProtocols :: "externals \<Rightarrow> json \<Rightarrow> outcome" where
  "validateAllowedProtocols ext data =
     Inr (validateAgainstSchema ext data (Some allowedProtocolsSchema))"

definition validateTrustedOriginsStore :: "externals \<Rightarrow> json \<Rightarrow> outcome" where
  "validateTrustedOriginsStore ext data =
     (case parse_unless_object ext data of
        Inl e \<Rightarrow> Inl e
      | Inr jsonData \<Rightarrow> Inr (validateAgainstSchema ext jsonData (Some trustedOriginsSchema)))"

definition validateOriginPermissions :: "externals \<Rightarrow> json \<Rightarrow> outcome" where
  "validateOriginPermissions ext data =
     (case parse_unless_object ext data of
        Inl e \<Rightarrow> Inl e
      | Inr jsonData \<Rightarrow> Inr (validateAgainstSchema ext jsonData (Some originPermissionsSchema)))"

section \<open>Notions the statements use\<close>

text \<open>A child schema accepts the value an object holds under its key.\<close>

definition child_ok :: "(jstring \<rightharpoonup> json) \<Rightarrow> jstring \<times> validator \<Rightarrow> bool" where
  "child_ok m kc = (case snd kc (m (fst kc)) of Inl e \<Rightarrow> False | Inr r \<Rightarrow> True)"

text \<open>
  A fixed choice of the imported functions, for evaluating the validators on concrete
  records: a url is valid when it is a string that starts with \<open>http://\<close> or
  \<open>https://\<close> and holds no space; \<open>JSON.parse\<close> reads \<open>{}\<close> and rejects the other strings
  the examples use; no string is read as a number; every string is a URI; a string with
  a code unit from 256 up is its own lower case.
\<close>

definition space :: code_unit where
  "space = 0x20"

definition sample_externals :: externals where
  "sample_externals =
     \<lparr>isValidURL = (\<lambda>v. case v of
                           JStr s \<Rightarrow> (take 7 s = str ''http://'' \<or> take 8 s = str ''https://'') \<and> space \<notin> set s
                         | _ \<Rightarrow> False),
      JSON_parse = (\<lambda>s. if s = str ''{}'' then Some (JObj []) else None),
      coerce_number = (\<lambda>s. No_match),
      isUri = (\<lambda>s. True),
      toLowerCase_unicode = (\<lambda>s. s)\<rparr>"

text \<open>
  Three teams for the examples: one with a valid url, one with a url that no correction
  makes valid, and one with the legacy form, upper case letters and backslashes.
\<close>

definition example_teams :: "json list" where
  "example_teams =
     [JObj [(str ''name'', JStr (str ''a'')), (str ''url'', JStr (str ''http://a.b''))],
      JObj [(str ''name'', JStr (str ''b'')), (str ''url'', JStr (str ''bad url''))],
      JObj [(str ''name'', JStr (str ''c'')),
            (str ''url'', JStr (str ''HTTP:'' @ [backslash, backslash] @ str ''C.d''))]]"

text \<open>
  The two blocks that versions 2 and 3 run before the schema, and the whole of such a
  validator with the schema as a parameter.
\<close>

definition sanitize ::
  "externals \<Rightarrow> (json \<Rightarrow> js_error + json) \<Rightarrow> json \<Rightarrow> js_error + (log_entry list \<times> json)"
where
  "sanitize ext callback data =
     (case replace_teams ext callback data of
        Inl e \<Rightarrow> Inl e
      | Inr data1 \<Rightarrow> Inr (drop_spellCheckerURL ext data1))"

definition config_run ::
  "externals \<Rightarrow> (json \<Rightarrow> js_error + json) \<Rightarrow> schema \<Rightarrow> json \<Rightarrow> outcome"
where
  "config_run ext callback schema data =
     (case sanitize ext callback data of
        Inl e \<Rightarrow> Inl e
      | Inr (lg1, data2) \<Rightarrow>
          Inr (lg1 @ fst (validateAgainstSchema ext data2 (Some schema)),
               snd (validateAgainstSchema ext data2 (Some schema))))"

text \<open>A call returns a normalized record: it neither throws nor returns null.\<close>

definition returns_record :: "outcome \<Rightarrow> bool" where
  "returns_record r = (case r of Inr (lg, Some out) \<Rightarrow> True | _ \<Rightarrow> False)"

text \<open>A team that the callbacks of the configuration validators accept: an object whose
  \<open>url\<close> is a string.\<close>

fun is_string :: "json option \<Rightarrow> bool" where
  "is_string (Some (JStr s)) = True"
| "is_string v = False"

definition team_with_url :: "json \<Rightarrow> bool" where
  "team_with_url team = is_string (get_prop team (str ''url''))"

text \<open>
  A schema declares a key when it lists it, or when the key schema of one of its
  patterns accepts it.
\<close>

fun declares :: "externals \<Rightarrow> schema \<Rightarrow> jstring \<Rightarrow> bool" where
  "declares ext (Object f ks ps) k =
     (k \<in> set (map fst ks) \<or>
      list_ex (\<lambda>p. case validate ext (fst p) (Some (JStr k)) of Inl e \<Rightarrow> False | Inr r \<Rightarrow> True) ps)"
| "declares ext s k = False"

text \<open>The exported validators, each with the schema it validates against.\<close>

definition validators :: "((externals \<Rightarrow> json \<Rightarrow> outcome) \<times> schema) list" where
  "validators =
     [(validateArgs, argsSchema),
      (validateBoundsInfo, boundsInfoSchema),
      (validateAppState, appStateSchema),
      (validateV0ConfigData, configDataSchemaV0),
      (validateV1ConfigData, configDataSchemaV1),
      (validateV2ConfigData, configDataSchemaV2),
      (validateV3ConfigData, configDataSchemaV3),
      (validateCertificateStore, certificateStoreSchema),
      (validateAllowedProtocols, allowedProtocolsSchema),
      (validateTrustedOriginsStore, trustedOriginsSchema),
      (validateOriginPermissions, originPermissionsSchema)]"

text \<open>
  A validator strips unknown keys: every key of a returned record is declared, and
  deleting an undeclared key from the input changes nothing.
\<close>

definition strips_unknown :: "externals \<Rightarrow> (json \<Rightarrow> outcome) \<Rightarrow> schema \<Rightarrow> bool" where
  "strips_unknown ext V S =
     (\<forall>kvs. (\<forall>lg out. V (JObj kvs) = Inr (lg, Some out) \<longrightarrow>
               (\<exists>okvs. out = JObj okvs \<and> (\<forall>k \<in> fst ` set okvs. declares ext S k)))
          \<and> (\<forall>k. \<not> declares ext S k \<longrightarrow> V (JObj (AList.delete k kvs)) = V (JObj kvs)))"

text \<open>
  The url of a team after the backslash correction, when the correction does not throw,
  and whether the filter keeps the team.
\<close>

definition url_after_cleaning :: "externals \<Rightarrow> json \<Rightarrow> json option" where
  "url_after_cleaning ext team =
     (case clean_value ext (get_prop team (str ''url'')) of Inl e \<Rightarrow> None | Inr u \<Rightarrow> Some u)"

definition keeps :: "externals \<Rightarrow> json \<Rightarrow> bool" where
  "keeps ext team =
     (case url_after_cleaning ext team of None \<Rightarrow> False | Some u \<Rightarrow> isValidURL ext u)"

text \<open>
  A validator is idempotent when it accepts each of its results and returns it
  unchanged. A schema is stable when, at every level, the default is such a result, a
  boolean or number schema allows no extra value, and an object schema has distinct keys
  and no pattern.
\<close>

definition idem :: "validator \<Rightarrow> bool" where
  "idem c = (\<forall>item r. c item = Inr r \<longrightarrow> c r = Inr r)"

definition default_stable :: "externals \<Rightarrow> schema \<Rightarrow> bool" where
  "default_stable ext s =
     (case presence (flags_of s) of
        Required \<Rightarrow> True
      | Optional \<Rightarrow> validate ext s (dflt (flags_of s)) = Inr (dflt (flags_of s)))"

primrec stable_schema :: "externals \<Rightarrow> schema \<Rightarrow> bool" where
  "stable_schema ext (Any f) = default_stable ext (Any f)"
| "stable_schema ext (Boolean f) = (allowed f = [] \<and> default_stable ext (Boolean f))"
| "stable_schema ext (Number f) = (allowed f = [] \<and> default_stable ext (Number f))"
| "stable_schema ext (String f) = default_stable ext (String f)"
| "stable_schema ext (Array f s) = (stable_schema ext s \<and> default_stable ext (Array f s))"
| "stable_schema ext (Object f ks ps) =
     (ps = [] \<and> distinct (map fst ks)
      \<and> list_all snd (map (map_prod id (stable_schema ext)) ks)
      \<and> default_stable ext (Object f ks ps))"

text \<open>A team that the callback of versions 2 and 3 returns as it is, and the filter keeps.\<close>

definition clean_team_ok :: "externals \<Rightarrow> json \<Rightarrow> bool" where
  "clean_team_ok ext y =
     (\<exists>ykvs s. y = JObj ykvs \<and> map_of ykvs (str ''url'') = Some (JStr s) \<and> cleanURL ext s = s
        \<and> isValidURL ext (JStr s))"

section \<open>Facts about strings\<close>

lemma unat_of_char: "unat (of_char x :: code_unit) = of_char x"
proof -
  have "(of_char x :: nat) < 2 ^ LENGTH(16)"
    by (rule less_trans[OF nat_of_char_less_256]) simp
  then have "unat (of_nat (of_char x) :: code_unit) = of_char x"
    by (simp add: unat_of_nat take_bit_nat_eq_self)
  then show ?thesis by (simp add: of_nat_of_char)
qed

lemma of_char_unit_eq_iff: "(of_char c :: code_unit) = of_char d \<longleftrightarrow> c = d"
proof
  assume "(of_char c :: code_unit) = of_char d"
  then have "unat (of_char c :: code_unit) = unat (of_char d :: code_unit)" by simp
  then have "(of_char c :: nat) = of_char d" by (simp add: unat_of_char)
  then show "c = d" by simp
qed simp

lemma str_eq_iff: "str s = str t \<longleftrightarrow> s = t"
  unfolding str_def
  by (induction s arbitrary: t) (auto simp: of_char_unit_eq_iff Cons_eq_map_conv)

lemma str_Nil: "str [] = []" "str s = [] \<longleftrightarrow> s = []" "[] = str s \<longleftrightarrow> s = []"
  by (auto simp: str_def)

lemma take_str: "take n (str s) = str (take n s)"
  by (simp add: str_def take_map)

lemma includes_unit: "includes_str s [c] = (c \<in> set s)"
proof (induction s)
  case Nil
  show ?case by simp
next
  case (Cons a s)
  have "starts_with (a # s) [c] = (a = c)" by (cases s) simp_all
  with Cons show ?case by auto
qed

lemma replace_backslashes_map:
  "replace_backslashes s = map (\<lambda>c. if c = backslash then slash else c) s"
  by (induction s) simp_all

lemma no_backslash_after_replace: "backslash \<notin> set (replace_backslashes s)"
  by (auto simp: replace_backslashes_map backslash_def slash_def)

lemma lower_unit_backslash: "lower_unit c = backslash \<longleftrightarrow> c = backslash"
proof -
  have "c + 0x20 = 0x5C \<longleftrightarrow> c = 0x3C" for c :: code_unit
  proof
    assume "c + 0x20 = 0x5C"
    then have "c + 0x20 - 0x20 = 0x5C - 0x20" by simp
    then show "c = 0x3C" by simp
  qed simp
  then show ?thesis by (auto simp: lower_unit_def backslash_def)
qed

lemma str_latin1: "list_all (\<lambda>c. c < 0x100) (str s)"
proof -
  have "(of_char c :: code_unit) < 0x100" for c
    using nat_of_char_less_256[of c] by (simp add: word_less_nat_alt unat_of_char)
  then show ?thesis by (simp add: str_def list_all_iff)
qed

lemma of_char_in_str: "of_char c \<in> set (str s) \<longleftrightarrow> c \<in> set s"
  unfolding str_def set_map
  by (rule inj_image_mem_iff) (rule injI, simp only: of_char_unit_eq_iff)

lemma backslash_in_str: "backslash \<in> set (str s) \<longleftrightarrow> CHR 0x5C \<in> set s"
proof -
  have b: "backslash = of_char (CHR 0x5C)" by (simp add: backslash_def)
  show ?thesis unfolding b by (rule of_char_in_str)
qed

lemma space_in_str: "space \<in> set (str s) \<longleftrightarrow> CHR '' '' \<in> set s"
proof -
  have b: "space = of_char (CHR '' '')" by (simp add: space_def)
  show ?thesis unfolding b by (rule of_char_in_str)
qed

lemma locale_rx_default: "locale_rx (str ''en-US'')"
  by (simp add: str_def is_lower_def is_upper_def hyphen_def)

text \<open>The strings of the examples below.\<close>

lemma cleanURL_examples:
  "cleanURL ext (str ''http://a.b'') = str ''http://a.b''"
  "cleanURL ext (str ''bad url'') = str ''bad url''"
  "cleanURL ext (str ''HTTP:'' @ [backslash, backslash] @ str ''C.d'') = str ''http://c.d''"
  "cleanURL ext (str ''HTTP:'' @ backslash # backslash # str ''C.d'') = str ''http://c.d''"
  by (simp_all add: cleanURL_def includes_unit replace_backslashes_map toLowerCase_def
      lower_unit_def backslash_def slash_def str_def)

lemma toLowerCase_TRUE: "toLowerCase ext (str ''TRUE'') = str ''true''"
  by (simp add: toLowerCase_def lower_unit_def str_def)

lemmas str_simps = str_eq_iff str_Nil take_str backslash_in_str space_in_str str_latin1

section \<open>Evaluating schemas\<close>

lemmas builder_defs =
  Joi_object_def Joi_any_def Joi_boolean_def Joi_number_def Joi_string_def Joi_array_items_def
  joi_default_def joi_required_def joi_min_def joi_integer_def joi_allow_def joi_valid_def
  joi_regex_def joi_uri_def no_flags_def

lemmas string_defs =
  cleanURL_def includes_unit backslash_def slash_def space_def hyphen_def colon_def
  replace_backslashes_map toLowerCase_def lower_unit_def is_lower_def is_upper_def

lemmas schema_defs =
  argsSchema_def boundsInfoSchema_def appStateSchema_def configDataSchemaV0_def
  configDataSchemaV1_def configDataSchemaV2_def configDataSchemaV3_def
  notificationsSchema_def trayIconThemeSchema_def spellCheckerLocaleSchema_def
  certificateStoreSchema_def originPermissionsSchema_def trustedOriginsSchema_def
  allowedProtocolsSchema_def

lemmas run_defs =
  validateAgainstSchema_def validate_with_def replace_teams_def drop_spellCheckerURL_def
  has_valid_url_def sample_externals_def MAX_SAFE_INTEGER_def is_integer_def

section \<open>Validation of objects\<close>

lemma delete_absent: "map_of kvs k = None \<Longrightarrow> AList.delete k kvs = kvs"
  by (simp add: map_of_eq_None_iff AList.delete_id)

lemma validate_keys_result:
  "distinct (map fst ks) \<Longrightarrow> validate_keys ks kvs = Inr out \<Longrightarrow>
   (\<forall>(k, c) \<in> set ks. c (map_of kvs k) = Inr (map_of out k)) \<and>
   (\<forall>k. k \<notin> fst ` set ks \<longrightarrow> map_of out k = map_of kvs k)"
proof (induction ks arbitrary: kvs)
  case Nil
  then show ?case by simp
next
  case (Cons a ks)
  obtain k c where a: "a = (k, c)" by (cases a)
  from Cons.prems a obtain r where r: "c (map_of kvs k) = Inr r"
    and rest: "validate_keys ks (case r of None \<Rightarrow> AList.delete k kvs | Some v \<Rightarrow> AList.update k v kvs) = Inr out"
    by (auto split: sum.splits option.splits)
  define kvs1 where "kvs1 = (case r of None \<Rightarrow> AList.delete k kvs | Some v \<Rightarrow> AList.update k v kvs)"
  have m1: "map_of kvs1 = (map_of kvs)(k := r)"
    by (cases r) (auto simp: kvs1_def AList.update_conv' AList.delete_conv' fun_eq_iff restrict_map_def)
  from Cons.prems a have d: "distinct (map fst ks)" and nk: "k \<notin> fst ` set ks" by auto
  from Cons.IH[OF d rest[folded kvs1_def]]
  have ih1: "\<forall>(k', c') \<in> set ks. c' (map_of kvs1 k') = Inr (map_of out k')"
    and ih2: "\<forall>k'. k' \<notin> fst ` set ks \<longrightarrow> map_of out k' = map_of kvs1 k'" by auto
  from ih2 nk m1 have outk: "map_of out k = r" by simp
  have "\<forall>(k', c') \<in> set ks. c' (map_of kvs k') = Inr (map_of out k')"
  proof clarify
    fix k' c' assume in_ks: "(k', c') \<in> set ks"
    with nk have "k' \<noteq> k" by force
    with ih1 in_ks m1 show "c' (map_of kvs k') = Inr (map_of out k')" by auto
  qed
  moreover have "\<forall>k'. k' \<notin> fst ` set (a # ks) \<longrightarrow> map_of out k' = map_of kvs k'"
    using ih2 m1 a by auto
  ultimately show ?case using a r outk by auto
qed

lemma validate_keys_ok_iff:
  "distinct (map fst ks) \<Longrightarrow>
   (\<exists>out. validate_keys ks kvs = Inr out) = list_all (child_ok (map_of kvs)) ks"
proof (induction ks arbitrary: kvs)
  case Nil
  then show ?case by simp
next
  case (Cons a ks)
  obtain k c where a: "a = (k, c)" by (cases a)
  from Cons.prems a have d: "distinct (map fst ks)" and nk: "k \<notin> fst ` set ks" by auto
  show ?case
  proof (cases "c (map_of kvs k)")
    case (Inl e)
    then show ?thesis using a by (simp add: child_ok_def)
  next
    case (Inr r)
    define kvs1 where "kvs1 = (case r of None \<Rightarrow> AList.delete k kvs | Some v \<Rightarrow> AList.update k v kvs)"
    have m1: "map_of kvs1 = (map_of kvs)(k := r)"
      by (cases r) (auto simp: kvs1_def AList.update_conv' AList.delete_conv' fun_eq_iff restrict_map_def)
    have same: "list_all (child_ok (map_of kvs1)) ks = list_all (child_ok (map_of kvs)) ks"
      unfolding list_all_iff
    proof (rule ball_cong[OF refl])
      fix kc assume "kc \<in> set ks"
      with nk have "fst kc \<noteq> k" by force
      then show "child_ok (map_of kvs1) kc = child_ok (map_of kvs) kc"
        by (simp add: child_ok_def m1)
    qed
    have "validate_keys (a # ks) kvs = validate_keys ks kvs1"
      using a Inr by (cases r) (simp_all add: kvs1_def)
    moreover have "child_ok (map_of kvs) a"
      using a Inr by (simp add: child_ok_def)
    ultimately show ?thesis using Cons.IH[OF d, of kvs1] same by simp
  qed
qed

lemma validate_keys_fixed:
  "(\<forall>(k, c) \<in> set ks. c (map_of kvs k) = Inr (map_of kvs k)) \<Longrightarrow> validate_keys ks kvs = Inr kvs"
proof (induction ks)
  case Nil
  then show ?case by simp
next
  case (Cons a ks)
  obtain k c where a: "a = (k, c)" by (cases a)
  with Cons.prems have h: "c (map_of kvs k) = Inr (map_of kvs k)" by simp
  show ?case
  proof (cases "map_of kvs k")
    case None
    with h a Cons show ?thesis by (simp add: delete_absent)
  next
    case (Some v)
    with h a Cons show ?thesis by (simp add: AList.update_triv)
  qed
qed

lemma validate_unknown_no_patterns:
  "validate_unknown declared [] kvs = Inr (filter (\<lambda>kv. fst kv \<in> set declared) kvs)"
  by (induction kvs) auto

lemma validate_unknown_subset:
  "validate_unknown declared ps kvs = Inr out \<Longrightarrow> k \<in> fst ` set out \<Longrightarrow>
     k \<in> set declared \<or> (\<exists>v. match_pattern ps k v \<noteq> None)"
proof (induction kvs arbitrary: out)
  case Nil
  then show ?case by simp
next
  case (Cons a kvs)
  obtain k' v' where a: "a = (k', v')" by (cases a)
  show ?case
  proof (cases "k = k'")
    case True
    show ?thesis
    proof (cases "k' \<in> set declared")
      case True
      with \<open>k = k'\<close> show ?thesis by simp
    next
      case False
      show ?thesis
      proof (cases "match_pattern ps k' v'")
        case None
        with Cons a False show ?thesis by auto
      next
        case (Some r)
        with \<open>k = k'\<close> show ?thesis by auto
      qed
    qed
  next
    case False
    with Cons.prems a have "\<exists>out'. validate_unknown declared ps kvs = Inr out' \<and> k \<in> fst ` set out'"
      by (auto split: if_splits sum.splits option.splits)
    with Cons.IH show ?thesis by blast
  qed
qed

lemma validate_unknown_delete:
  "k \<notin> set declared \<Longrightarrow> \<forall>v. match_pattern ps k v = None \<Longrightarrow>
   validate_unknown declared ps (AList.delete k kvs) = validate_unknown declared ps kvs"
  by (induction kvs) (auto simp: AList.delete_eq split: sum.splits option.splits)

lemma validate_keys_delete:
  "k \<notin> fst ` set ks \<Longrightarrow>
   validate_keys ks (AList.delete k kvs) = map_sum id (AList.delete k) (validate_keys ks kvs)"
proof (induction ks arbitrary: kvs)
  case Nil
  then show ?case by simp
next
  case (Cons a ks)
  obtain k' c where a: "a = (k', c)" by (cases a)
  with Cons.prems have ne: "k' \<noteq> k" and nk: "k \<notin> fst ` set ks" by auto
  have m: "map_of (AList.delete k kvs) k' = map_of kvs k'"
    using ne by (simp add: AList.delete_conv')
  show ?case
    using a m ne Cons.IH[OF nk]
    by (auto split: sum.splits option.splits simp: AList.delete_twist AList.delete_update[symmetric])
qed

lemma validate_Joi_object:
  "validate ext (Joi_object ks) (Some (JObj kvs)) =
     (case validate_keys (map (map_prod id (validate ext)) ks) kvs of
        Inl e \<Rightarrow> Inl e
      | Inr kvs1 \<Rightarrow> Inr (Some (JObj (filter (\<lambda>kv. fst kv \<in> fst ` set ks) kvs1))))"
  by (simp add: Joi_object_def no_flags_def validate_with_def validate_unknown_no_patterns comp_def
      split: sum.splits)

lemma validateAgainstSchema_Joi_object:
  "validateAgainstSchema ext (JObj kvs) (Some (Joi_object ks)) =
     (case validate_keys (map (map_prod id (validate ext)) ks) kvs of
        Inl e \<Rightarrow> ([Validation_failed e], None)
      | Inr kvs1 \<Rightarrow> ([], Some (JObj (filter (\<lambda>kv. fst kv \<in> fst ` set ks) kvs1))))"
  by (simp add: validateAgainstSchema_def validate_Joi_object split: sum.splits)

lemma validateAgainstSchema_rejects:
  assumes "distinct (map fst ks)" and "(k, s) \<in> set ks" and "validate ext s (map_of kvs k) = Inl e"
  shows "\<exists>lg. validateAgainstSchema ext (JObj kvs) (Some (Joi_object ks)) = (lg, None)"
proof -
  let ?cs = "map (map_prod id (validate ext)) ks"
  have d: "distinct (map fst ?cs)" using assms(1) by (simp add: comp_def)
  have "(k, validate ext s) \<in> set ?cs" using assms(2) by force
  moreover have "\<not> child_ok (map_of kvs) (k, validate ext s)"
    using assms(3) by (simp add: child_ok_def)
  ultimately have "\<not> list_all (child_ok (map_of kvs)) ?cs"
    unfolding list_all_iff by blast
  with validate_keys_ok_iff[OF d, of kvs] obtain e' where "validate_keys ?cs kvs = Inl e'"
    by (cases "validate_keys ?cs kvs") auto
  then show ?thesis by (simp add: validateAgainstSchema_Joi_object)
qed

lemma map_of_filter_keys:
  "map_of (filter (\<lambda>kv. fst kv \<in> D) kvs) k = (if k \<in> D then map_of kvs k else None)"
  by (induction kvs) auto

lemma validateAgainstSchema_result:
  assumes "distinct (map fst ks)"
    and "validateAgainstSchema ext (JObj kvs) (Some (Joi_object ks)) = (lg, Some out)"
  shows "\<exists>okvs. out = JObj okvs \<and> lg = []
           \<and> (\<forall>(k, s) \<in> set ks. validate ext s (map_of kvs k) = Inr (map_of okvs k))
           \<and> (\<forall>k. k \<notin> fst ` set ks \<longrightarrow> map_of okvs k = None)"
proof -
  let ?cs = "map (map_prod id (validate ext)) ks"
  have d: "distinct (map fst ?cs)" using assms(1) by (simp add: comp_def)
  from assms(2) obtain kvs1 where k1: "validate_keys ?cs kvs = Inr kvs1"
    and out: "out = JObj (filter (\<lambda>kv. fst kv \<in> fst ` set ks) kvs1)" and lg: "lg = []"
    by (auto simp: validateAgainstSchema_Joi_object split: sum.splits)
  from validate_keys_result[OF d k1]
  have r: "\<forall>(k, c) \<in> set ?cs. c (map_of kvs k) = Inr (map_of kvs1 k)" by blast
  have "\<forall>(k, s) \<in> set ks. validate ext s (map_of kvs k) = Inr (map_of (filter (\<lambda>kv. fst kv \<in> fst ` set ks) kvs1) k)"
  proof clarify
    fix k s assume ks: "(k, s) \<in> set ks"
    then have "(k, validate ext s) \<in> set ?cs" by force
    with r have "validate ext s (map_of kvs k) = Inr (map_of kvs1 k)" by blast
    moreover have "k \<in> fst ` set ks" using ks by force
    ultimately show "validate ext s (map_of kvs k) = Inr (map_of (filter (\<lambda>kv. fst kv \<in> fst ` set ks) kvs1) k)"
      by (simp add: map_of_filter_keys)
  qed
  then show ?thesis using out lg by (simp add: map_of_filter_keys)
qed

lemma child_ok_iff: "child_ok m (k, c) = (\<exists>r. c (m k) = Inr r)"
  by (cases "c (m k)") (simp_all add: child_ok_def)

lemma validateAgainstSchema_accepts_iff:
  assumes "distinct (map fst ks)"
  shows "(\<exists>lg out. validateAgainstSchema ext (JObj kvs) (Some (Joi_object ks)) = (lg, Some out))
         = (\<forall>(k, s) \<in> set ks. \<exists>r. validate ext s (map_of kvs k) = Inr r)"
proof -
  let ?cs = "map (map_prod id (validate ext)) ks"
  have d: "distinct (map fst ?cs)" using assms(1) by (simp add: comp_def)
  have "(\<exists>lg out. validateAgainstSchema ext (JObj kvs) (Some (Joi_object ks)) = (lg, Some out))
        = (\<exists>kvs1. validate_keys ?cs kvs = Inr kvs1)"
    by (auto simp: validateAgainstSchema_Joi_object split: sum.splits)
  also have "\<dots> = list_all (child_ok (map_of kvs)) ?cs"
    by (rule validate_keys_ok_iff[OF d])
  also have "\<dots> = (\<forall>(k, s) \<in> set ks. \<exists>r. validate ext s (map_of kvs k) = Inr r)"
    by (auto simp: list_all_iff child_ok_iff)
  finally show ?thesis .
qed

lemma validateAgainstSchema_total:
  "\<exists>lg r. validateAgainstSchema ext d s = (lg, r)"
  by (cases "validateAgainstSchema ext d s") auto

section \<open>The configuration validators as one run\<close>

lemma validateV2ConfigData_run:
  "validateV2ConfigData ext data = config_run ext (clean_team ext) configDataSchemaV2 data"
  by (simp add: validateV2ConfigData_def sanitize_def config_run_def split: sum.splits prod.splits)

lemma validateV3ConfigData_run:
  "validateV3ConfigData ext data = config_run ext (clean_team ext) configDataSchemaV3 data"
  by (simp add: validateV3ConfigData_def sanitize_def config_run_def split: sum.splits prod.splits)

lemma replace_teams_object:
  "replace_teams ext cb (JObj kvs) = Inr d \<Longrightarrow>
   \<exists>kvs1. d = JObj kvs1 \<and> (\<forall>k. k \<noteq> (str ''teams'') \<longrightarrow> map_of kvs1 k = map_of kvs k)"
  by (auto simp: str_simps replace_teams_def AList.update_conv' split: option.splits json.splits list.splits sum.splits)

lemma drop_spellCheckerURL_object:
  "drop_spellCheckerURL ext (JObj kvs) = (lg, d) \<Longrightarrow>
   \<exists>kvs1. d = JObj kvs1 \<and> (\<forall>k. k \<noteq> (str ''spellCheckerURL'') \<longrightarrow> map_of kvs1 k = map_of kvs k)"
  by (auto simp: str_simps drop_spellCheckerURL_def AList.delete_conv' split: option.splits if_splits)

lemma sanitize_object:
  "sanitize ext cb (JObj kvs) = Inr (lg, d) \<Longrightarrow>
   \<exists>kvs2. d = JObj kvs2 \<and>
     (\<forall>k. k \<noteq> (str ''teams'') \<and> k \<noteq> (str ''spellCheckerURL'') \<longrightarrow> map_of kvs2 k = map_of kvs k)"
  unfolding sanitize_def
  by (auto simp: str_simps split: sum.splits dest!: replace_teams_object drop_spellCheckerURL_object)

lemma replace_teams_delete:
  "k \<noteq> (str ''teams'') \<Longrightarrow>
   replace_teams ext cb (JObj (AList.delete k kvs)) =
     map_sum id (\<lambda>d. delete_prop d k) (replace_teams ext cb (JObj kvs))"
  by (auto simp: str_simps replace_teams_def AList.delete_conv' AList.delete_update
      split: option.splits json.splits list.splits sum.splits)

lemma drop_spellCheckerURL_delete:
  "k \<noteq> (str ''spellCheckerURL'') \<Longrightarrow>
   drop_spellCheckerURL ext (JObj (AList.delete k kvs)) =
     map_prod id (\<lambda>d. delete_prop d k) (drop_spellCheckerURL ext (JObj kvs))"
  by (auto simp: str_simps drop_spellCheckerURL_def AList.delete_conv' AList.delete_twist
      split: option.splits)

lemma sanitize_delete:
  assumes "k \<noteq> (str ''teams'')" and "k \<noteq> (str ''spellCheckerURL'')"
  shows "sanitize ext cb (JObj (AList.delete k kvs)) =
     map_sum id (map_prod id (\<lambda>d. delete_prop d k)) (sanitize ext cb (JObj kvs))"
proof (cases "replace_teams ext cb (JObj kvs)")
  case (Inl e)
  then show ?thesis by (simp add: str_simps sanitize_def replace_teams_delete[OF assms(1)])
next
  case (Inr d)
  then obtain kvs1 where "d = JObj kvs1" using replace_teams_object by blast
  with Inr show ?thesis
    by (simp add: str_simps sanitize_def replace_teams_delete[OF assms(1)] drop_spellCheckerURL_delete[OF assms(2)])
qed


lemma returns_record_iff:
  "returns_record r = (\<exists>lg out. r = Inr (lg, Some out))"
  by (auto simp: returns_record_def split: sum.splits option.splits)

lemma config_run_result:
  assumes "config_run ext cb schema (JObj kvs) = Inr (lg, r)"
  shows "\<exists>kvs2 lg1 lg2. sanitize ext cb (JObj kvs) = Inr (lg1, JObj kvs2)
           \<and> validateAgainstSchema ext (JObj kvs2) (Some schema) = (lg2, r) \<and> lg = lg1 @ lg2
           \<and> (\<forall>k. k \<noteq> (str ''teams'') \<and> k \<noteq> (str ''spellCheckerURL'') \<longrightarrow> map_of kvs2 k = map_of kvs k)"
proof (cases "sanitize ext cb (JObj kvs)")
  case (Inl e)
  with assms show ?thesis by (simp add: str_simps config_run_def)
next
  case (Inr p)
  obtain lg1 d2 where p: "p = (lg1, d2)" by (cases p)
  from sanitize_object[OF Inr[unfolded p]] obtain kvs2 where k2: "d2 = JObj kvs2"
    and m: "\<forall>k. k \<noteq> (str ''teams'') \<and> k \<noteq> (str ''spellCheckerURL'') \<longrightarrow> map_of kvs2 k = map_of kvs k"
    by blast
  obtain lg2 r2 where v: "validateAgainstSchema ext (JObj kvs2) (Some schema) = (lg2, r2)"
    by (cases "validateAgainstSchema ext (JObj kvs2) (Some schema)")
  from assms Inr p k2 v have "lg = lg1 @ lg2" "r = r2"
    by (simp_all add: str_simps config_run_def)
  with Inr p k2 v m show ?thesis by blast
qed

lemma validateAgainstSchema_child:
  assumes "distinct (map fst ks)"
    and "validateAgainstSchema ext (JObj kvs) (Some (Joi_object ks)) = (lg, Some out)"
    and "(k, s) \<in> set ks"
  shows "validate ext s (map_of kvs k) = Inr (get_prop out k)"
proof -
  from validateAgainstSchema_result[OF assms(1,2)] obtain okvs where
    "out = JObj okvs" "\<forall>(k, s) \<in> set ks. validate ext s (map_of kvs k) = Inr (map_of okvs k)"
    by blast
  with assms(3) show ?thesis by auto
qed

lemma config_run_child:
  assumes d: "distinct (map fst ks)"
    and r: "config_run ext cb (Joi_object ks) (JObj kvs) = Inr (lg, Some out)"
    and k: "(k, s) \<in> set ks" "k \<noteq> (str ''teams'')" "k \<noteq> (str ''spellCheckerURL'')"
  shows "validate ext s (map_of kvs k) = Inr (get_prop out k)"
proof -
  from config_run_result[OF r] obtain kvs2 lg2 where
    v: "validateAgainstSchema ext (JObj kvs2) (Some (Joi_object ks)) = (lg2, Some out)"
    and m: "\<forall>k. k \<noteq> (str ''teams'') \<and> k \<noteq> (str ''spellCheckerURL'') \<longrightarrow> map_of kvs2 k = map_of kvs k"
    by blast
  from validateAgainstSchema_child[OF d v k(1)] m k(2,3) show ?thesis by (simp add: str_simps)
qed

lemma accepts_delete_key:
  assumes d: "distinct (map fst ks)" and k0: "(k0, s0) \<in> set ks"
    and a1: "\<exists>r. validate ext s0 (map_of kvs k0) = Inr r"
    and a2: "\<exists>r. validate ext s0 None = Inr r"
  shows "(\<exists>lg out. validateAgainstSchema ext (JObj (AList.delete k0 kvs)) (Some (Joi_object ks)) = (lg, Some out))
       = (\<exists>lg out. validateAgainstSchema ext (JObj kvs) (Some (Joi_object ks)) = (lg, Some out))"
proof -
  have *: "(\<exists>r. validate ext s (map_of (AList.delete k0 kvs) k) = Inr r)
      = (\<exists>r. validate ext s (map_of kvs k) = Inr r)" if "(k, s) \<in> set ks" for k s
  proof (cases "k = k0")
    case True
    with d k0 that have "s = s0" by (meson eq_key_imp_eq_value)
    with True a1 a2 show ?thesis by (simp add: AList.delete_conv')
  next
    case False
    then show ?thesis by (simp add: AList.delete_conv')
  qed
  have "(\<forall>(k, s) \<in> set ks. \<exists>r. validate ext s (map_of (AList.delete k0 kvs) k) = Inr r)
      = (\<forall>(k, s) \<in> set ks. \<exists>r. validate ext s (map_of kvs k) = Inr r)"
  proof (intro ball_cong refl)
    fix x assume x: "x \<in> set ks"
    obtain k s where "x = (k, s)" by (cases x)
    with x *[of k s] show "(case x of (k, s) \<Rightarrow> \<exists>r. validate ext s (map_of (AList.delete k0 kvs) k) = Inr r)
        = (case x of (k, s) \<Rightarrow> \<exists>r. validate ext s (map_of kvs k) = Inr r)" by simp
  qed
  then show ?thesis
    unfolding validateAgainstSchema_accepts_iff[OF d] .
qed

lemma returns_record_run:
  assumes "sanitize ext cb (JObj kvs) = Inr (lg1, JObj kvs2)"
  shows "returns_record (config_run ext cb schema (JObj kvs))
       = (\<exists>lg out. validateAgainstSchema ext (JObj kvs2) (Some schema) = (lg, Some out))"
proof -
  obtain lg2 r2 where v: "validateAgainstSchema ext (JObj kvs2) (Some schema) = (lg2, r2)"
    by (cases "validateAgainstSchema ext (JObj kvs2) (Some schema)")
  with assms show ?thesis by (simp add: config_run_def returns_record_iff)
qed

lemma config_run_delete_accepted:
  assumes d: "distinct (map fst ks)" and k0: "(k0, s0) \<in> set ks"
    and ne: "k0 \<noteq> (str ''teams'')" "k0 \<noteq> (str ''spellCheckerURL'')"
    and a1: "\<exists>r. validate ext s0 (map_of kvs k0) = Inr r"
    and a2: "\<exists>r. validate ext s0 None = Inr r"
  shows "returns_record (config_run ext cb (Joi_object ks) (JObj (AList.delete k0 kvs)))
       = returns_record (config_run ext cb (Joi_object ks) (JObj kvs))"
proof (cases "sanitize ext cb (JObj kvs)")
  case (Inl e)
  then show ?thesis
    by (simp add: str_simps config_run_def sanitize_delete[OF ne] returns_record_def)
next
  case (Inr p)
  obtain lg1 d2 where p: "p = (lg1, d2)" by (cases p)
  from sanitize_object[OF Inr[unfolded p]] obtain kvs2 where k2: "d2 = JObj kvs2"
    and m: "\<forall>k. k \<noteq> (str ''teams'') \<and> k \<noteq> (str ''spellCheckerURL'') \<longrightarrow> map_of kvs2 k = map_of kvs k"
    by blast
  have s1: "sanitize ext cb (JObj kvs) = Inr (lg1, JObj kvs2)" using Inr p k2 by (simp add: str_simps)
  have s2: "sanitize ext cb (JObj (AList.delete k0 kvs)) = Inr (lg1, JObj (AList.delete k0 kvs2))"
    by (simp add: str_simps sanitize_delete[OF ne] s1)
  have a1': "\<exists>r. validate ext s0 (map_of kvs2 k0) = Inr r" using a1 m ne by (simp add: str_simps)
  show ?thesis
    unfolding returns_record_run[OF s1] returns_record_run[OF s2]
    by (rule accepts_delete_key[OF d k0 a1' a2])
qed

section \<open>The URL sanitizer\<close>

text \<open>
  C2. For every string: when it holds a backslash, \<open>cleanURL\<close> returns the lower case of
  the string with every backslash replaced by a slash, so that the result holds no
  backslash; when it holds none, \<open>cleanURL\<close> returns the string as it is, not lowercased.
  On a string of code units below 256 the lower case is taken unit by unit. The two
  examples of the specification evaluate as stated, and so does a url with a letter
  outside ASCII.
\<close>

theorem cleanURL_backslash_rule:
  "(backslash \<in> set url \<longrightarrow>
      cleanURL ext url = map (\<lambda>c. if c = backslash then slash else c) (toLowerCase ext url))
   \<and> (backslash \<notin> set url \<longrightarrow> cleanURL ext url = url)
   \<and> (backslash \<in> set url \<and> list_all (\<lambda>c. c < 0x100) url \<longrightarrow>
        cleanURL ext url = map (\<lambda>c. if c = backslash then slash else lower_unit c) url)
   \<and> backslash \<notin> set (cleanURL ext url)
   \<and> cleanURL ext (str ''HTTPS://Foo.COM'' @ [backslash] @ str ''bar'') = str ''https://foo.com/bar''
   \<and> cleanURL ext (str ''https://Foo.com/bar'') = str ''https://Foo.com/bar''
   \<and> cleanURL ext (str ''HTTP:'' @ [backslash, backslash, 0xC9] @ str ''.COM'')
       = str ''http://'' @ [0xE9] @ str ''.com''"
proof (intro conjI impI)
  assume "backslash \<in> set url"
  then show "cleanURL ext url = map (\<lambda>c. if c = backslash then slash else c) (toLowerCase ext url)"
    by (simp add: cleanURL_def includes_unit replace_backslashes_map)
next
  assume "backslash \<notin> set url"
  then show "cleanURL ext url = url" by (simp add: cleanURL_def includes_unit)
next
  assume "backslash \<in> set url \<and> list_all (\<lambda>c. c < 0x100) url"
  then show "cleanURL ext url = map (\<lambda>c. if c = backslash then slash else lower_unit c) url"
    by (simp add: cleanURL_def includes_unit replace_backslashes_map toLowerCase_def
        lower_unit_backslash)
next
  show "backslash \<notin> set (cleanURL ext url)"
    by (simp add: cleanURL_def includes_unit no_backslash_after_replace)
next
  show "cleanURL ext (str ''HTTPS://Foo.COM'' @ [backslash] @ str ''bar'') = str ''https://foo.com/bar''"
    by (simp add: string_defs str_def)
next
  show "cleanURL ext (str ''https://Foo.com/bar'') = str ''https://Foo.com/bar''"
    by (simp add: cleanURL_def includes_unit backslash_in_str)
next
  show "cleanURL ext (str ''HTTP:'' @ [backslash, backslash, 0xC9] @ str ''.COM'')
       = str ''http://'' @ [0xE9] @ str ''.com''"
    by (simp add: string_defs str_def)
qed

theorem cleanURL_backslash_rule_witness:
  "backslash \<in> set (str ''C:'' @ [backslash] @ str ''Dir'')
   \<and> list_all (\<lambda>c. c < 0x100) (str ''C:'' @ [backslash] @ str ''Dir'')
   \<and> cleanURL sample_externals (str ''C:'' @ [backslash] @ str ''Dir'')
       = map (\<lambda>c. if c = backslash then slash else c)
           (toLowerCase sample_externals (str ''C:'' @ [backslash] @ str ''Dir''))
   \<and> cleanURL sample_externals (str ''C:'' @ [backslash] @ str ''Dir'') = str ''c:/dir''
   \<and> backslash \<notin> set (str ''C:/Dir'')
   \<and> cleanURL sample_externals (str ''C:/Dir'') = str ''C:/Dir''"
proof -
  let ?u = "str ''C:'' @ [backslash] @ str ''Dir''"
  have b: "backslash \<in> set ?u" by simp
  have l: "list_all (\<lambda>c. c < 0x100) ?u" by (simp add: str_latin1 backslash_def)
  have n: "backslash \<notin> set (str ''C:/Dir'')" by (simp add: backslash_in_str)
  note t = cleanURL_backslash_rule[where ext = sample_externals]
  note c1 = t[where url = ?u, THEN conjunct1, THEN mp, OF b]
  have "map (\<lambda>c. if c = backslash then slash else lower_unit c) ?u = str ''c:/dir''"
    by (simp add: lower_unit_def backslash_def slash_def str_def)
  with t[where url = ?u, THEN conjunct2, THEN conjunct2, THEN conjunct1, THEN mp, OF conjI[OF b l]]
  have c2: "cleanURL sample_externals ?u = str ''c:/dir''" by simp
  note c3 = t[where url = "str ''C:/Dir''", THEN conjunct2, THEN conjunct1, THEN mp, OF n]
  show ?thesis by (intro conjI b l c1 c2 n c3)
qed

section \<open>Launch options\<close>

text \<open>
  C8. The empty record validates against the schema of the launch options, every key of
  which is optional, and comes back as the empty record. A string, a number or a boolean
  is refused before the schema is consulted, and null or an array is refused by the
  schema: in each case the result is null.
\<close>

theorem validateArgs_empty_and_non_object:
  "validateArgs ext (JObj []) = Inr ([], Some (JObj []))
   \<and> validateArgs ext (JStr (str ''not an object'')) = Inr ([Not_an_object T_string], None)
   \<and> validateArgs ext (JStr s) = Inr ([Not_an_object T_string], None)
   \<and> validateArgs ext (JNum n) = Inr ([Not_an_object T_number], None)
   \<and> validateArgs ext (JBool b) = Inr ([Not_an_object T_boolean], None)
   \<and> validateArgs ext JNull = Inr ([Validation_failed object_base], None)
   \<and> validateArgs ext (JArr xs) = Inr ([Validation_failed object_base], None)"
  by (simp add: str_simps validateArgs_def validateAgainstSchema_def argsSchema_def builder_defs
      validate_with_def)

section \<open>Window bounds\<close>

lemma width_below_minimum:
  "w < 400 \<Longrightarrow> \<exists>e. validate ext (joi_default (JNum defaultWindowWidth)
          (joi_required (joi_min minWindowWidth (joi_integer Joi_number)))) (Some (JNum w)) = Inl e"
  by (simp add: builder_defs validate_with_def minWindowWidth_def)

lemma height_below_minimum:
  "h < 240 \<Longrightarrow> \<exists>e. validate ext (joi_default (JNum defaultWindowHeight)
          (joi_required (joi_min minWindowHeight (joi_integer Joi_number)))) (Some (JNum h)) = Inl e"
  by (simp add: builder_defs validate_with_def minWindowHeight_def)

text \<open>
  C3. A record whose width is a number below 400, or whose height is a number below
  240, is rejected: the result is null, so the value is neither clamped nor replaced by
  the default. In particular the record with width 100 and height 100 is rejected, by
  the \<open>min\<close> rule of width.
\<close>

theorem validateBoundsInfo_below_minimum:
  "((\<exists>w. map_of kvs (str ''width'') = Some (JNum w) \<and> w < 400) \<or>
    (\<exists>h. map_of kvs (str ''height'') = Some (JNum h) \<and> h < 240)
    \<longrightarrow> (\<exists>lg. validateBoundsInfo ext (JObj kvs) = Inr (lg, None)))
   \<and> validateBoundsInfo ext (JObj [(str ''width'', JNum 100), (str ''height'', JNum 100)]) =
       Inr ([Validation_failed number_min], None)"
proof (intro conjI impI)
  assume "(\<exists>w. map_of kvs (str ''width'') = Some (JNum w) \<and> w < 400) \<or>
    (\<exists>h. map_of kvs (str ''height'') = Some (JNum h) \<and> h < 240)"
  then show "\<exists>lg. validateBoundsInfo ext (JObj kvs) = Inr (lg, None)"
  proof
    assume "\<exists>w. map_of kvs (str ''width'') = Some (JNum w) \<and> w < 400"
    then obtain w where w: "map_of kvs (str ''width'') = Some (JNum w)" "w < 400" by blast
    from width_below_minimum[OF w(2), of ext] obtain e where
      "validate ext (joi_default (JNum defaultWindowWidth)
          (joi_required (joi_min minWindowWidth (joi_integer Joi_number)))) (map_of kvs (str ''width'')) = Inl e"
      using w(1) by (auto simp: str_simps)
    from validateAgainstSchema_rejects[OF _ _ this]
    show ?thesis by (simp add: str_simps validateBoundsInfo_def boundsInfoSchema_def str_simps)
  next
    assume "\<exists>h. map_of kvs (str ''height'') = Some (JNum h) \<and> h < 240"
    then obtain h where h: "map_of kvs (str ''height'') = Some (JNum h)" "h < 240" by blast
    from height_below_minimum[OF h(2), of ext] obtain e where
      "validate ext (joi_default (JNum defaultWindowHeight)
          (joi_required (joi_min minWindowHeight (joi_integer Joi_number)))) (map_of kvs (str ''height'')) = Inl e"
      using h(1) by (auto simp: str_simps)
    from validateAgainstSchema_rejects[OF _ _ this]
    show ?thesis by (simp add: str_simps validateBoundsInfo_def boundsInfoSchema_def str_simps)
  qed
next
  show "validateBoundsInfo ext (JObj [(str ''width'', JNum 100), (str ''height'', JNum 100)]) =
       Inr ([Validation_failed number_min], None)"
    by (simp add: str_simps validateBoundsInfo_def validateAgainstSchema_def boundsInfoSchema_def builder_defs
        validate_with_def minWindowWidth_def MAX_SAFE_INTEGER_def is_integer_def)
qed

theorem validateBoundsInfo_below_minimum_witness:
  "map_of [(str ''height'', JNum 300), (str ''width'', JNum 399)] (str ''width'') = Some (JNum 399)
   \<and> (399 :: rat) < 400
   \<and> (\<exists>lg. validateBoundsInfo sample_externals
               (JObj [(str ''height'', JNum 300), (str ''width'', JNum 399)]) = Inr (lg, None))"
proof -
  have h: "(\<exists>w. map_of [(str ''height'', JNum 300), (str ''width'', JNum 399)] (str ''width'') = Some (JNum w) \<and> w < 400)
      \<or> (\<exists>h. map_of [(str ''height'', JNum 300), (str ''width'', JNum 399)] (str ''height'') = Some (JNum h) \<and> h < 240)"
    by (simp add: str_simps str_simps)
  from validateBoundsInfo_below_minimum[THEN conjunct1, rule_format, OF h]
  show ?thesis by (simp add: str_simps str_simps)
qed

text \<open>
  The schema gives width and height the defaults 1000 and 700 and, in the same chain,
  declares them required. The library reports a missing required key before it looks
  at a default, so a record that lacks width or height is rejected.
\<close>

lemma validateBoundsInfo_missing_size:
  "map_of kvs (str ''width'') = None \<or> map_of kvs (str ''height'') = None
     \<Longrightarrow> \<exists>lg. validateBoundsInfo ext (JObj kvs) = Inr (lg, None)"
proof (erule disjE)
  assume a: "map_of kvs (str ''width'') = None"
  have "validate ext (joi_default (JNum defaultWindowWidth)
        (joi_required (joi_min minWindowWidth (joi_integer Joi_number)))) (map_of kvs (str ''width'')) = Inl any_required"
    by (simp add: a builder_defs validate_with_def)
  from validateAgainstSchema_rejects[OF _ _ this]
  show ?thesis by (simp add: validateBoundsInfo_def boundsInfoSchema_def str_simps)
next
  assume a: "map_of kvs (str ''height'') = None"
  have "validate ext (joi_default (JNum defaultWindowHeight)
        (joi_required (joi_min minWindowHeight (joi_integer Joi_number)))) (map_of kvs (str ''height'')) = Inl any_required"
    by (simp add: a builder_defs validate_with_def)
  from validateAgainstSchema_rejects[OF _ _ this]
  show ?thesis by (simp add: validateBoundsInfo_def boundsInfoSchema_def str_simps)
qed

text \<open>
  C7 says that a record without width or height is returned with the declared defaults
  filled in, 1000 and 700. The code does not do that: the empty record, the record with
  only a height and the record with only a width are each rejected with the error of a
  missing required key. The defaults of the other four keys are filled in, as the record
  with a width and a height shows; and the width and height schemas themselves, taken
  without \<open>required()\<close>, give 1000 and 700 for a missing key.
\<close>

theorem validateBoundsInfo_size_defaults_unreachable:
  "validateBoundsInfo ext (JObj []) = Inr ([Validation_failed any_required], None)
   \<and> validateBoundsInfo ext (JObj [(str ''height'', JNum 600)])
       = Inr ([Validation_failed any_required], None)
   \<and> validateBoundsInfo ext (JObj [(str ''width'', JNum 800)])
       = Inr ([Validation_failed any_required], None)
   \<and> validateBoundsInfo ext (JObj [(str ''width'', JNum 800), (str ''height'', JNum 600)])
       = Inr ([], Some (JObj [(str ''width'', JNum 800), (str ''height'', JNum 600),
                              (str ''x'', JNum 0), (str ''y'', JNum 0),
                              (str ''maximized'', JBool False), (str ''fullscreen'', JBool False)]))
   \<and> validate ext (joi_default (JNum defaultWindowWidth) (joi_min minWindowWidth (joi_integer Joi_number))) None
       = Inr (Some (JNum 1000))
   \<and> validate ext (joi_default (JNum defaultWindowHeight) (joi_min minWindowHeight (joi_integer Joi_number))) None
       = Inr (Some (JNum 700))"
  by (simp add: validateBoundsInfo_def validateAgainstSchema_def boundsInfoSchema_def builder_defs
      validate_with_def str_simps minWindowWidth_def minWindowHeight_def defaultWindowWidth_def
      defaultWindowHeight_def MAX_SAFE_INTEGER_def is_integer_def)

section \<open>The version key of configuration version 3\<close>

lemma V3_shape:
  "\<exists>ks. configDataSchemaV3 = Joi_object ks \<and> distinct (map fst ks)
     \<and> (str ''version'', joi_default (JNum 2) (joi_min 2 Joi_number)) \<in> set ks"
  unfolding configDataSchemaV3_def
  apply (intro exI conjI)
    apply (rule refl)
   apply (simp add: str_simps str_simps)
  apply (simp add: str_simps str_simps)
  done

lemma version_schema_cases:
  "validate ext (joi_default (JNum 2) (joi_min 2 Joi_number)) None = Inr (Some (JNum 2))"
  "v < 2 \<Longrightarrow> \<exists>e. validate ext (joi_default (JNum 2) (joi_min 2 Joi_number)) (Some (JNum v)) = Inl e"
  "2 \<le> v \<Longrightarrow> v \<le> MAX_SAFE_INTEGER \<Longrightarrow>
     validate ext (joi_default (JNum 2) (joi_min 2 Joi_number)) (Some (JNum v)) = Inr (Some (JNum v))"
  by (simp_all add: builder_defs validate_with_def MAX_SAFE_INTEGER_def)

text \<open>
  C10, as the code has it. The schema of version 3 declares \<open>version\<close> as a number with
  minimum 2 and default 2. A record whose version is a number below 2 is never returned
  as a normalized record. A version from 2 up to the largest safe integer is accepted:
  the record is returned exactly when it would be without the key, and the output keeps
  the version. When the key is absent the output has version 2, not 3.
\<close>

theorem validateV3ConfigData_version:
  "(map_of kvs (str ''version'') = Some (JNum v) \<and> v < 2
      \<longrightarrow> \<not> returns_record (validateV3ConfigData ext (JObj kvs)))
   \<and> (map_of kvs (str ''version'') = Some (JNum v) \<and> 2 \<le> v \<and> v \<le> MAX_SAFE_INTEGER
      \<longrightarrow> returns_record (validateV3ConfigData ext (JObj kvs))
            = returns_record (validateV3ConfigData ext (JObj (AList.delete (str ''version'') kvs)))
          \<and> (\<forall>lg out. validateV3ConfigData ext (JObj kvs) = Inr (lg, Some out)
                \<longrightarrow> get_prop out (str ''version'') = Some (JNum v)))
   \<and> (map_of kvs (str ''version'') = None
      \<longrightarrow> (\<forall>lg out. validateV3ConfigData ext (JObj kvs) = Inr (lg, Some out)
                \<longrightarrow> get_prop out (str ''version'') = Some (JNum 2)))"
proof -
  obtain ks where ks: "configDataSchemaV3 = Joi_object ks"
    and d: "distinct (map fst ks)"
    and ver: "(str ''version'', joi_default (JNum 2) (joi_min 2 Joi_number)) \<in> set ks"
    using V3_shape by blast
  note run = validateV3ConfigData_run[of ext, unfolded ks]
  have out_version: "validate ext (joi_default (JNum 2) (joi_min 2 Joi_number)) (map_of kvs (str ''version''))
        = Inr (get_prop out (str ''version''))"
    if "validateV3ConfigData ext (JObj kvs) = Inr (lg, Some out)" for lg out
    by (rule config_run_child[OF d that[unfolded run] ver]) (simp_all add: str_simps str_simps)
  have p1: "\<not> returns_record (validateV3ConfigData ext (JObj kvs))"
    if h: "map_of kvs (str ''version'') = Some (JNum v) \<and> v < 2"
  proof
    assume "returns_record (validateV3ConfigData ext (JObj kvs))"
    then obtain lg out where "validateV3ConfigData ext (JObj kvs) = Inr (lg, Some out)"
      unfolding returns_record_iff by blast
    from out_version[OF this] h version_schema_cases(2)[of v ext] show False by (auto simp: str_simps)
  qed
  have p2a: "returns_record (validateV3ConfigData ext (JObj kvs))
            = returns_record (validateV3ConfigData ext (JObj (AList.delete (str ''version'') kvs)))"
    if h: "map_of kvs (str ''version'') = Some (JNum v) \<and> 2 \<le> v \<and> v \<le> MAX_SAFE_INTEGER"
  proof -
    have a1: "\<exists>r. validate ext (joi_default (JNum 2) (joi_min 2 Joi_number)) (map_of kvs (str ''version'')) = Inr r"
      using h version_schema_cases(3)[of v ext] by (simp add: str_simps)
    have a2: "\<exists>r. validate ext (joi_default (JNum 2) (joi_min 2 Joi_number)) None = Inr r"
      using version_schema_cases(1)[of ext] by (simp add: str_simps)
    show ?thesis
      unfolding run
      by (rule config_run_delete_accepted[OF d ver _ _ a1 a2, symmetric]) (simp_all add: str_simps str_simps)
  qed
  have p2b: "get_prop out (str ''version'') = Some (JNum v)"
    if "map_of kvs (str ''version'') = Some (JNum v) \<and> 2 \<le> v \<and> v \<le> MAX_SAFE_INTEGER"
      and "validateV3ConfigData ext (JObj kvs) = Inr (lg, Some out)" for lg out
    using out_version[OF that(2)] that(1) version_schema_cases(3)[of v ext] by (simp add: str_simps)
  have p3: "get_prop out (str ''version'') = Some (JNum 2)"
    if "map_of kvs (str ''version'') = None"
      and "validateV3ConfigData ext (JObj kvs) = Inr (lg, Some out)" for lg out
    using out_version[OF that(2)] that(1) version_schema_cases(1)[of ext] by (simp add: str_simps)
  show ?thesis using p1 p2a p2b p3 by blast
qed

theorem validateV3ConfigData_version_witness:
  "\<not> returns_record (validateV3ConfigData sample_externals (JObj [(str ''version'', JNum 1)]))
   \<and> returns_record (validateV3ConfigData sample_externals (JObj [(str ''version'', JNum 3)]))
       = returns_record (validateV3ConfigData sample_externals
           (JObj (AList.delete (str ''version'') [(str ''version'', JNum 3)])))
   \<and> (\<exists>lg out. validateV3ConfigData sample_externals (JObj [(str ''version'', JNum 3)]) = Inr (lg, Some out)
         \<and> get_prop out (str ''version'') = Some (JNum 3))
   \<and> (\<exists>lg out. validateV3ConfigData sample_externals (JObj []) = Inr (lg, Some out)
         \<and> get_prop out (str ''version'') = Some (JNum 2))"
proof -
  have "returns_record (validateV3ConfigData sample_externals (JObj [(str ''version'', JNum 3)]))"
    by (simp add: str_simps returns_record_def validateV3ConfigData_def schema_defs builder_defs run_defs)
  then obtain lg3 out3 where
    e3: "validateV3ConfigData sample_externals (JObj [(str ''version'', JNum 3)]) = Inr (lg3, Some out3)"
    unfolding returns_record_iff by blast
  have "returns_record (validateV3ConfigData sample_externals (JObj []))"
    by (simp add: str_simps returns_record_def validateV3ConfigData_def schema_defs builder_defs run_defs)
  then obtain lg0 out0 where
    e0: "validateV3ConfigData sample_externals (JObj []) = Inr (lg0, Some out0)"
    unfolding returns_record_iff by blast
  note t1 = validateV3ConfigData_version
      [where kvs = "[(str ''version'', JNum 1)]" and v = 1 and ext = sample_externals, THEN conjunct1]
  note t2 = validateV3ConfigData_version
      [where kvs = "[(str ''version'', JNum 3)]" and v = 3 and ext = sample_externals,
       THEN conjunct2, THEN conjunct1]
  note t3 = validateV3ConfigData_version
      [where kvs = "[]" and ext = sample_externals, THEN conjunct2, THEN conjunct2]
  have h2: "map_of [(str ''version'', JNum 3)] (str ''version'') = Some (JNum 3) \<and> (2 :: rat) \<le> 3
      \<and> 3 \<le> MAX_SAFE_INTEGER"
    by (simp add: str_simps MAX_SAFE_INTEGER_def)
  have c1: "\<not> returns_record (validateV3ConfigData sample_externals (JObj [(str ''version'', JNum 1)]))"
    using t1 by (simp add: str_simps)
  have c2: "returns_record (validateV3ConfigData sample_externals (JObj [(str ''version'', JNum 3)]))
       = returns_record (validateV3ConfigData sample_externals
           (JObj (AList.delete (str ''version'') [(str ''version'', JNum 3)])))"
    using t2 h2 by blast
  have c3: "get_prop out3 (str ''version'') = Some (JNum 3)"
    using t2 h2 e3 by blast
  have c4: "get_prop out0 (str ''version'') = Some (JNum 2)"
    using t3 e0 by (simp add: str_simps)
  from c1 c2 c3 c4 e3 e0 show ?thesis by blast
qed

lemma validateV3ConfigData_unsafe_version:
  "validateV3ConfigData ext (JObj [(str ''version'', JNum 9007199254740992)])
     = Inr ([Validation_failed number_unsafe], None)"
  by (simp add: str_simps validateV3ConfigData_def schema_defs builder_defs validateAgainstSchema_def
      validate_with_def replace_teams_def drop_spellCheckerURL_def MAX_SAFE_INTEGER_def)

text \<open>
  The claim as the specification states it fails above the safe integers: a number
  schema refuses a version of \<open>2^53\<close>, although it is at least 2, whatever the imported
  functions are.
\<close>

theorem validateV3ConfigData_unsafe_version_rejected:
  "validateV3ConfigData sample_externals (JObj [(str ''version'', JNum 9007199254740992)])
     = Inr ([Validation_failed number_unsafe], None)"
  by (rule validateV3ConfigData_unsafe_version)

section \<open>The spell checker URL of versions 2 and 3\<close>

lemma sanitize_invalid_spellCheckerURL:
  assumes "map_of kvs (str ''spellCheckerURL'') = Some u" and "truthy (Some u)" and "\<not> isValidURL ext u"
  shows "sanitize ext cb (JObj kvs) =
     (case sanitize ext cb (JObj (AList.delete (str ''spellCheckerURL'') kvs)) of
        Inl e \<Rightarrow> Inl e
      | Inr (lg, d) \<Rightarrow> Inr (Invalid_spellchecker_location # lg, d))"
proof (cases "replace_teams ext cb (JObj kvs)")
  case (Inl e)
  then show ?thesis by (simp add: str_simps sanitize_def replace_teams_delete)
next
  case (Inr d)
  from replace_teams_object[OF Inr] obtain kvs1 where k1: "d = JObj kvs1"
    and m: "map_of kvs1 (str ''spellCheckerURL'') = map_of kvs (str ''spellCheckerURL'')" by (auto simp: str_simps)
  have "drop_spellCheckerURL ext (JObj kvs1) =
      ([Invalid_spellchecker_location], JObj (AList.delete (str ''spellCheckerURL'') kvs1))"
    using assms m by (simp add: str_simps drop_spellCheckerURL_def)
  moreover have "drop_spellCheckerURL ext (JObj (AList.delete (str ''spellCheckerURL'') kvs1)) =
      ([], JObj (AList.delete (str ''spellCheckerURL'') kvs1))"
    by (simp add: str_simps drop_spellCheckerURL_def AList.delete_conv')
  ultimately show ?thesis using Inr k1
    by (simp add: str_simps sanitize_def replace_teams_delete)
qed

lemma config_run_invalid_spellCheckerURL:
  assumes "map_of kvs (str ''spellCheckerURL'') = Some u" and "truthy (Some u)" and "\<not> isValidURL ext u"
  shows "config_run ext cb schema (JObj kvs) =
     (case config_run ext cb schema (JObj (AList.delete (str ''spellCheckerURL'') kvs)) of
        Inl e \<Rightarrow> Inl e
      | Inr (lg, r) \<Rightarrow> Inr (Invalid_spellchecker_location # lg, r))"
  unfolding config_run_def sanitize_invalid_spellCheckerURL[OF assms]
  by (simp add: str_simps split: sum.splits prod.splits)

lemma sanitize_spellCheckerURL_absent:
  assumes "sanitize ext cb (JObj kvs) = Inr (lg1, JObj kvs2)"
    and "map_of kvs (str ''spellCheckerURL'') = Some u" and "truthy (Some u)" and "\<not> isValidURL ext u"
  shows "map_of kvs2 (str ''spellCheckerURL'') = None"
proof -
  from assms(1) obtain d where r: "replace_teams ext cb (JObj kvs) = Inr d"
    and dr: "drop_spellCheckerURL ext d = (lg1, JObj kvs2)"
    by (auto simp: str_simps sanitize_def split: sum.splits)
  from replace_teams_object[OF r] obtain kvs1 where k1: "d = JObj kvs1"
    and m: "map_of kvs1 (str ''spellCheckerURL'') = map_of kvs (str ''spellCheckerURL'')" by (auto simp: str_simps)
  from dr k1 m assms(2-4) have "kvs2 = AList.delete (str ''spellCheckerURL'') kvs1"
    by (simp add: str_simps drop_spellCheckerURL_def)
  then show ?thesis by (simp add: str_simps AList.delete_conv')
qed

lemma config_run_spellCheckerURL_absent:
  assumes d: "distinct (map fst ks)" and k: "(str ''spellCheckerURL'', joi_allow [JNull] Joi_string) \<in> set ks"
    and r: "config_run ext cb (Joi_object ks) (JObj kvs) = Inr (lg, Some out)"
    and h: "map_of kvs (str ''spellCheckerURL'') = Some u" "truthy (Some u)" "\<not> isValidURL ext u"
  shows "get_prop out (str ''spellCheckerURL'') = None"
proof -
  from config_run_result[OF r] obtain kvs2 lg1 lg2 where
    s: "sanitize ext cb (JObj kvs) = Inr (lg1, JObj kvs2)"
    and v: "validateAgainstSchema ext (JObj kvs2) (Some (Joi_object ks)) = (lg2, Some out)"
    by (elim exE conjE) (rule that)
  have m: "map_of kvs2 (str ''spellCheckerURL'') = None"
    by (rule sanitize_spellCheckerURL_absent[OF s h])
  have n: "validate ext (joi_allow [JNull] Joi_string) None = Inr None"
    by (simp add: str_simps builder_defs validate_with_def)
  from validateAgainstSchema_child[OF d v k] have
    "validate ext (joi_allow [JNull] Joi_string) (map_of kvs2 (str ''spellCheckerURL'')) = Inr (get_prop out (str ''spellCheckerURL''))" .
  then show ?thesis unfolding m n by (simp add: str_simps)
qed

lemma V2_shape:
  "\<exists>ks. configDataSchemaV2 = Joi_object ks \<and> distinct (map fst ks)
     \<and> (str ''spellCheckerURL'', joi_allow [JNull] Joi_string) \<in> set ks"
  unfolding configDataSchemaV2_def
  apply (intro exI conjI)
    apply (rule refl)
   apply (simp add: str_simps str_simps)
  apply (simp add: str_simps str_simps)
  done

lemma V3_shape_spell:
  "\<exists>ks. configDataSchemaV3 = Joi_object ks \<and> distinct (map fst ks)
     \<and> (str ''spellCheckerURL'', joi_allow [JNull] Joi_string) \<in> set ks"
  unfolding configDataSchemaV3_def
  apply (intro exI conjI)
    apply (rule refl)
   apply (simp add: str_simps str_simps)
  apply (simp add: str_simps str_simps)
  done

text \<open>
  C5, as the code has it. When \<open>spellCheckerURL\<close> is present, truthy and not a valid
  URL, versions 2 and 3 behave as on the record without the key, except that the
  diagnostic is logged first: the bad URL never makes the result null. A record that is
  returned has no \<open>spellCheckerURL\<close>.
\<close>

theorem invalid_spellCheckerURL_removed:
  "map_of kvs (str ''spellCheckerURL'') = Some u \<and> truthy (Some u) \<and> \<not> isValidURL ext u \<longrightarrow>
     validateV2ConfigData ext (JObj kvs) =
       (case validateV2ConfigData ext (JObj (AList.delete (str ''spellCheckerURL'') kvs)) of
          Inl e \<Rightarrow> Inl e
        | Inr (lg, r) \<Rightarrow> Inr (Invalid_spellchecker_location # lg, r))
     \<and> validateV3ConfigData ext (JObj kvs) =
       (case validateV3ConfigData ext (JObj (AList.delete (str ''spellCheckerURL'') kvs)) of
          Inl e \<Rightarrow> Inl e
        | Inr (lg, r) \<Rightarrow> Inr (Invalid_spellchecker_location # lg, r))
     \<and> (\<forall>lg out. validateV2ConfigData ext (JObj kvs) = Inr (lg, Some out)
           \<longrightarrow> get_prop out (str ''spellCheckerURL'') = None)
     \<and> (\<forall>lg out. validateV3ConfigData ext (JObj kvs) = Inr (lg, Some out)
           \<longrightarrow> get_prop out (str ''spellCheckerURL'') = None)"
proof (intro impI)
  assume h: "map_of kvs (str ''spellCheckerURL'') = Some u \<and> truthy (Some u) \<and> \<not> isValidURL ext u"
  then have h1: "map_of kvs (str ''spellCheckerURL'') = Some u" and h2: "truthy (Some u)"
    and h3: "\<not> isValidURL ext u" by (auto simp: str_simps)
  obtain ks2 where ks2: "configDataSchemaV2 = Joi_object ks2" and d2: "distinct (map fst ks2)"
    and sp2: "(str ''spellCheckerURL'', joi_allow [JNull] Joi_string) \<in> set ks2"
    using V2_shape by blast
  obtain ks3 where ks3: "configDataSchemaV3 = Joi_object ks3" and d3: "distinct (map fst ks3)"
    and sp3: "(str ''spellCheckerURL'', joi_allow [JNull] Joi_string) \<in> set ks3"
    using V3_shape_spell by blast
  have a2: "get_prop out (str ''spellCheckerURL'') = None"
    if "validateV2ConfigData ext (JObj kvs) = Inr (lg, Some out)" for lg out
    by (rule config_run_spellCheckerURL_absent
        [OF d2 sp2 that[unfolded validateV2ConfigData_run ks2] h1 h2 h3])
  have a3: "get_prop out (str ''spellCheckerURL'') = None"
    if "validateV3ConfigData ext (JObj kvs) = Inr (lg, Some out)" for lg out
    by (rule config_run_spellCheckerURL_absent
        [OF d3 sp3 that[unfolded validateV3ConfigData_run ks3] h1 h2 h3])
  show "validateV2ConfigData ext (JObj kvs) =
       (case validateV2ConfigData ext (JObj (AList.delete (str ''spellCheckerURL'') kvs)) of
          Inl e \<Rightarrow> Inl e
        | Inr (lg, r) \<Rightarrow> Inr (Invalid_spellchecker_location # lg, r))
     \<and> validateV3ConfigData ext (JObj kvs) =
       (case validateV3ConfigData ext (JObj (AList.delete (str ''spellCheckerURL'') kvs)) of
          Inl e \<Rightarrow> Inl e
        | Inr (lg, r) \<Rightarrow> Inr (Invalid_spellchecker_location # lg, r))
     \<and> (\<forall>lg out. validateV2ConfigData ext (JObj kvs) = Inr (lg, Some out)
           \<longrightarrow> get_prop out (str ''spellCheckerURL'') = None)
     \<and> (\<forall>lg out. validateV3ConfigData ext (JObj kvs) = Inr (lg, Some out)
           \<longrightarrow> get_prop out (str ''spellCheckerURL'') = None)"
    using a2 a3
    by (simp add: str_simps validateV2ConfigData_run validateV3ConfigData_run
        config_run_invalid_spellCheckerURL[OF h1 h2 h3])
qed

theorem invalid_spellCheckerURL_removed_witness:
  "truthy (Some (JStr (str ''not a url''))) \<and> \<not> isValidURL sample_externals (JStr (str ''not a url''))
   \<and> validateV2ConfigData sample_externals
        (JObj [(str ''teams'', JArr [JObj [(str ''name'', JStr (str ''t1'')), (str ''url'', JStr (str ''bad url''))]]),
               (str ''spellCheckerURL'', JStr (str ''not a url''))])
      = (case validateV2ConfigData sample_externals
          (JObj (AList.delete (str ''spellCheckerURL'')
            [(str ''teams'', JArr [JObj [(str ''name'', JStr (str ''t1'')), (str ''url'', JStr (str ''bad url''))]]),
             (str ''spellCheckerURL'', JStr (str ''not a url''))])) of
          Inl e \<Rightarrow> Inl e
        | Inr (lg, r) \<Rightarrow> Inr (Invalid_spellchecker_location # lg, r))
   \<and> returns_record (validateV2ConfigData sample_externals
        (JObj [(str ''teams'', JArr [JObj [(str ''name'', JStr (str ''t1'')), (str ''url'', JStr (str ''bad url''))]]),
               (str ''spellCheckerURL'', JStr (str ''not a url''))]))"
proof -
  have h: "map_of [(str ''teams'', JArr [JObj [(str ''name'', JStr (str ''t1'')), (str ''url'', JStr (str ''bad url''))]]),
               (str ''spellCheckerURL'', JStr (str ''not a url''))] (str ''spellCheckerURL'') = Some (JStr (str ''not a url''))
      \<and> truthy (Some (JStr (str ''not a url''))) \<and> \<not> isValidURL sample_externals (JStr (str ''not a url''))"
    by (simp add: str_simps sample_externals_def)
  have e: "returns_record (validateV2ConfigData sample_externals
        (JObj [(str ''teams'', JArr [JObj [(str ''name'', JStr (str ''t1'')), (str ''url'', JStr (str ''bad url''))]]),
               (str ''spellCheckerURL'', JStr (str ''not a url''))]))"
    by (simp add: str_simps returns_record_def validateV2ConfigData_def schema_defs builder_defs run_defs
        string_defs)
  note c = invalid_spellCheckerURL_removed[THEN mp, OF h, THEN conjunct1]
  from h have h2: "truthy (Some (JStr (str ''not a url'')))"
    and h3: "\<not> isValidURL sample_externals (JStr (str ''not a url''))" by blast+
  show ?thesis by (intro conjI h2 h3 c e)
qed

lemma empty_spellCheckerURL:
  "validateV2ConfigData ext (JObj [(str ''spellCheckerURL'', JStr [])])
       = Inr ([Validation_failed string_empty], None)"
  "validateV3ConfigData ext (JObj [(str ''spellCheckerURL'', JStr [])])
       = Inr ([Validation_failed string_empty], None)"
  by (simp_all add: str_simps validateV2ConfigData_def validateV3ConfigData_def schema_defs builder_defs
      validateAgainstSchema_def validate_with_def replace_teams_def drop_spellCheckerURL_def)

text \<open>
  The claim as the specification states it fails on a falsy value: the guard
  \<open>data.spellCheckerURL &&\<close> skips the empty string, which is not a valid URL, the key
  stays, and the string schema rejects the whole record. The validity predicate is not
  even consulted.
\<close>

theorem empty_spellCheckerURL_rejects_record:
  "\<not> isValidURL sample_externals (JStr [])
   \<and> validateV2ConfigData sample_externals (JObj [(str ''spellCheckerURL'', JStr [])])
       = Inr ([Validation_failed string_empty], None)
   \<and> validateV3ConfigData sample_externals (JObj [(str ''spellCheckerURL'', JStr [])])
       = Inr ([Validation_failed string_empty], None)"
  by (simp add: str_simps empty_spellCheckerURL sample_externals_def)

section \<open>Exceptions\<close>

lemma map_throw_ok:
  "(\<forall>x \<in> set xs. \<exists>y. f x = Inr y) \<Longrightarrow> \<exists>ys. map_throw f xs = Inr ys"
  by (induction xs) (auto split: sum.splits)

lemma team_with_url_cleans:
  assumes "team_with_url team"
  shows "\<exists>c. (clean_team ext) team = Inr c" and "\<exists>c. (clean_team_v1 ext) team = Inr c"
proof -
  from assms obtain url where u: "get_prop team (str ''url'') = Some (JStr url)"
    unfolding team_with_url_def by (cases "get_prop team (str ''url'')" rule: is_string.cases) (auto simp: str_simps)
  then obtain kvs where t: "team = JObj kvs" "map_of kvs (str ''url'') = Some (JStr url)"
    by (cases team) (auto simp: str_simps)
  then show "\<exists>c. (clean_team ext) team = Inr c" by (simp add: str_simps)
  from t show "\<exists>c. (clean_team_v1 ext) team = Inr c" by (simp add: str_simps)
qed

lemma replace_teams_returns:
  assumes "d \<noteq> JNull"
    and "\<forall>ts. get_prop d (str ''teams'') = Some (JArr ts) \<longrightarrow> list_all team_with_url ts"
    and "\<forall>t. team_with_url t \<longrightarrow> (\<exists>c. cb t = Inr c)"
  shows "\<exists>d1. replace_teams ext cb d = Inr d1"
proof (cases "\<exists>t ts. get_prop d (str ''teams'') = Some (JArr (t # ts))")
  case True
  then obtain t ts where g: "get_prop d (str ''teams'') = Some (JArr (t # ts))" by blast
  with assms(2) have "list_all team_with_url (t # ts)" by blast
  with assms(3) have "\<forall>x \<in> set (t # ts). \<exists>y. cb x = Inr y" by (simp add: str_simps list_all_iff)
  from map_throw_ok[OF this] obtain cs where "map_throw cb (t # ts) = Inr cs" by blast
  with g assms(1) show ?thesis by (cases d) (simp_all add: str_simps replace_teams_def)
next
  case False
  with assms(1) show ?thesis
    by (cases d) (auto simp: str_simps replace_teams_def split: option.splits json.splits list.splits)
qed

text \<open>
  C9, as the code has it. The validators that only call \<open>validateAgainstSchema\<close> always
  return. The three store validators return unless their input is a string that
  \<open>JSON.parse\<close> rejects; then the \<open>SyntaxError\<close> reaches the caller. The three
  configuration validators return when the data is not null and every team of
  \<open>data.teams\<close> is an object whose url is a string; on null they throw a \<open>TypeError\<close>.
\<close>

theorem validators_return_or_throw:
  "(\<exists>r. validateArgs ext d = Inr r) \<and> (\<exists>r. validateBoundsInfo ext d = Inr r)
   \<and> (\<exists>r. validateAppState ext d = Inr r) \<and> (\<exists>r. validateV0ConfigData ext d = Inr r)
   \<and> (\<exists>r. validateAllowedProtocols ext d = Inr r)
   \<and> ((\<forall>s. d = JStr s \<longrightarrow> JSON_parse ext s \<noteq> None)
        \<longrightarrow> (\<exists>r. validateCertificateStore ext d = Inr r)
          \<and> (\<exists>r. validateTrustedOriginsStore ext d = Inr r)
          \<and> (\<exists>r. validateOriginPermissions ext d = Inr r))
   \<and> (JSON_parse ext s = None
        \<longrightarrow> validateCertificateStore ext (JStr s) = Inl SyntaxError
          \<and> validateTrustedOriginsStore ext (JStr s) = Inl SyntaxError
          \<and> validateOriginPermissions ext (JStr s) = Inl SyntaxError)
   \<and> (d \<noteq> JNull \<and> (\<forall>ts. get_prop d (str ''teams'') = Some (JArr ts) \<longrightarrow> list_all team_with_url ts)
        \<longrightarrow> (\<exists>r. validateV1ConfigData ext d = Inr r)
          \<and> (\<exists>r. validateV2ConfigData ext d = Inr r)
          \<and> (\<exists>r. validateV3ConfigData ext d = Inr r))
   \<and> validateV1ConfigData ext JNull = Inl TypeError
   \<and> validateV2ConfigData ext JNull = Inl TypeError
   \<and> validateV3ConfigData ext JNull = Inl TypeError"
proof -
  have simple: "(\<exists>r. validateArgs ext d = Inr r) \<and> (\<exists>r. validateBoundsInfo ext d = Inr r)
   \<and> (\<exists>r. validateAppState ext d = Inr r) \<and> (\<exists>r. validateV0ConfigData ext d = Inr r)
   \<and> (\<exists>r. validateAllowedProtocols ext d = Inr r)"
    by (simp add: str_simps validateArgs_def validateBoundsInfo_def validateAppState_def
        validateV0ConfigData_def validateAllowedProtocols_def)
  have stores: "(\<exists>r. validateCertificateStore ext d = Inr r)
          \<and> (\<exists>r. validateTrustedOriginsStore ext d = Inr r)
          \<and> (\<exists>r. validateOriginPermissions ext d = Inr r)"
    if "\<forall>s. d = JStr s \<longrightarrow> JSON_parse ext s \<noteq> None"
    using that
    by (cases d) (auto simp: str_simps validateCertificateStore_def validateTrustedOriginsStore_def
        validateOriginPermissions_def)
  have parse_fails: "validateCertificateStore ext (JStr s) = Inl SyntaxError
          \<and> validateTrustedOriginsStore ext (JStr s) = Inl SyntaxError
          \<and> validateOriginPermissions ext (JStr s) = Inl SyntaxError"
    if "JSON_parse ext s = None"
    using that
    by (simp add: str_simps validateCertificateStore_def validateTrustedOriginsStore_def
        validateOriginPermissions_def)
  have configs: "(\<exists>r. validateV1ConfigData ext d = Inr r)
          \<and> (\<exists>r. validateV2ConfigData ext d = Inr r)
          \<and> (\<exists>r. validateV3ConfigData ext d = Inr r)"
    if h: "d \<noteq> JNull \<and> (\<forall>ts. get_prop d (str ''teams'') = Some (JArr ts) \<longrightarrow> list_all team_with_url ts)"
  proof -
    from h have a: "d \<noteq> JNull"
      and b: "\<forall>ts. get_prop d (str ''teams'') = Some (JArr ts) \<longrightarrow> list_all team_with_url ts" by (auto simp: str_simps)
    from replace_teams_returns[OF a b, of "clean_team_v1 ext" ext] team_with_url_cleans(2)
    obtain d1 where "replace_teams ext (clean_team_v1 ext) d = Inr d1" by blast
    then have v1: "\<exists>r. validateV1ConfigData ext d = Inr r"
      by (simp add: str_simps validateV1ConfigData_def)
    from replace_teams_returns[OF a b, of "clean_team ext" ext] team_with_url_cleans(1)
    obtain d2 where "replace_teams ext (clean_team ext) d = Inr d2" by blast
    then have "(\<exists>r. validateV2ConfigData ext d = Inr r) \<and> (\<exists>r. validateV3ConfigData ext d = Inr r)"
      by (simp add: str_simps validateV2ConfigData_def validateV3ConfigData_def split: prod.splits)
    with v1 show ?thesis by (simp add: str_simps)
  qed
  have nulls: "validateV1ConfigData ext JNull = Inl TypeError
   \<and> validateV2ConfigData ext JNull = Inl TypeError
   \<and> validateV3ConfigData ext JNull = Inl TypeError"
    by (simp add: str_simps validateV1ConfigData_def validateV2ConfigData_def validateV3ConfigData_def
        replace_teams_def)
  from simple stores parse_fails configs nulls show ?thesis by (intro conjI impI) blast+
qed

theorem validators_return_or_throw_witness:
  "(\<exists>r. validateCertificateStore sample_externals (JStr (str ''{}'')) = Inr r)
   \<and> validateCertificateStore sample_externals (JStr (str ''{'')) = Inl SyntaxError
   \<and> (\<exists>r. validateV2ConfigData sample_externals
        (JObj [(str ''teams'', JArr [JObj [(str ''name'', JStr (str ''t1'')), (str ''url'', JStr (str ''http://a.b''))]])]) = Inr r)"
proof -
  have h1: "\<forall>s. JStr (str ''{}'') = JStr s \<longrightarrow> JSON_parse sample_externals s \<noteq> None"
    by (simp add: str_simps sample_externals_def)
  have h2: "JSON_parse sample_externals (str ''{'') = None"
    by (simp add: str_simps sample_externals_def)
  have h3: "JObj [(str ''teams'', JArr [JObj [(str ''name'', JStr (str ''t1'')), (str ''url'', JStr (str ''http://a.b''))]])] \<noteq> JNull
      \<and> (\<forall>ts. get_prop (JObj [(str ''teams'', JArr [JObj [(str ''name'', JStr (str ''t1'')), (str ''url'', JStr (str ''http://a.b''))]])])
              (str ''teams'') = Some (JArr ts) \<longrightarrow> list_all team_with_url ts)"
    by (simp add: str_simps team_with_url_def)
  note t = validators_return_or_throw[where ext = sample_externals]
  note c1 = t[where d = "JStr (str ''{}'')", THEN conjunct2, THEN conjunct2, THEN conjunct2, THEN conjunct2,
      THEN conjunct2, THEN conjunct1, THEN mp, OF h1, THEN conjunct1]
  note c2 = t[where s = "(str ''{'')", THEN conjunct2, THEN conjunct2, THEN conjunct2, THEN conjunct2,
      THEN conjunct2, THEN conjunct2, THEN conjunct1, THEN mp, OF h2, THEN conjunct1]
  note c3 = t[where d = "JObj [(str ''teams'', JArr [JObj [(str ''name'', JStr (str ''t1'')), (str ''url'', JStr (str ''http://a.b''))]])]",
      THEN conjunct2, THEN conjunct2, THEN conjunct2, THEN conjunct2,
      THEN conjunct2, THEN conjunct2, THEN conjunct2, THEN conjunct1, THEN mp, OF h3,
      THEN conjunct2, THEN conjunct1]
  show ?thesis by (intro conjI c1 c2 c3)
qed

text \<open>
  The claim as the specification states it fails: no validator catches anything, so
  null data, a team without a url and a string that is not JSON each end in an
  exception, not in null.
\<close>

theorem validators_throw:
  "validateV1ConfigData sample_externals JNull = Inl TypeError
   \<and> validateV2ConfigData sample_externals (JObj [(str ''teams'', JArr [JObj [(str ''name'', JStr (str ''t1''))]])])
       = Inl TypeError
   \<and> validateCertificateStore sample_externals (JStr (str ''not json'')) = Inl SyntaxError
   \<and> validateTrustedOriginsStore sample_externals (JStr (str ''not json'')) = Inl SyntaxError
   \<and> validateOriginPermissions sample_externals (JStr (str ''not json'')) = Inl SyntaxError"
  by (simp add: str_simps validateV1ConfigData_def validateV2ConfigData_def validateCertificateStore_def
      validateTrustedOriginsStore_def validateOriginPermissions_def replace_teams_def
      sample_externals_def)

section \<open>Unknown keys\<close>

lemma validate_object:
  assumes "allowed f = []" and "\<not> only f"
  shows "validate ext (Object f ks ps) (Some (JObj kvs)) =
     (case validate_keys (map (map_prod id (validate ext)) ks) kvs of
        Inl e \<Rightarrow> Inl e
      | Inr kvs1 \<Rightarrow>
          (case validate_unknown (map fst ks) (map (map_prod (validate ext) (validate ext)) ps) kvs1 of
             Inl e \<Rightarrow> Inl e
           | Inr kvs2 \<Rightarrow> Inr (Some (JObj kvs2))))"
proof -
  have r: "check_rules ext rs (JObj x) = None" for rs x
  proof (induction rs)
    case Nil
    show ?case by simp
  next
    case (Cons a rs)
    then show ?case by (cases a) simp_all
  qed
  show ?thesis using assms
    by (simp add: validate_with_def r comp_def split: sum.splits)
qed

lemma validateAgainstSchema_object:
  assumes "allowed f = []" and "\<not> only f"
  shows "validateAgainstSchema ext (JObj kvs) (Some (Object f ks ps)) =
     (case validate_keys (map (map_prod id (validate ext)) ks) kvs of
        Inl e \<Rightarrow> ([Validation_failed e], None)
      | Inr kvs1 \<Rightarrow>
          (case validate_unknown (map fst ks) (map (map_prod (validate ext) (validate ext)) ps) kvs1 of
             Inl e \<Rightarrow> ([Validation_failed e], None)
           | Inr kvs2 \<Rightarrow> ([], Some (JObj kvs2))))"
  by (simp add: validateAgainstSchema_def validate_object[OF assms] del: validate.simps
      split: sum.splits)

lemma match_pattern_declares:
  "match_pattern (map (map_prod (validate ext) (validate ext)) ps) k v \<noteq> None \<Longrightarrow>
   list_ex (\<lambda>p. case validate ext (fst p) (Some (JStr k)) of Inl e \<Rightarrow> False | Inr r \<Rightarrow> True) ps"
  by (induction ps) (auto split: sum.splits)

lemma match_pattern_undeclared:
  "\<not> list_ex (\<lambda>p. case validate ext (fst p) (Some (JStr k)) of Inl e \<Rightarrow> False | Inr r \<Rightarrow> True) ps \<Longrightarrow>
   match_pattern (map (map_prod (validate ext) (validate ext)) ps) k v = None"
  using match_pattern_declares by blast

lemma object_output_declared:
  assumes a: "allowed f = []" "\<not> only f"
    and v: "validateAgainstSchema ext (JObj kvs) (Some (Object f ks ps)) = (lg, Some out)"
  shows "\<exists>okvs. out = JObj okvs \<and> (\<forall>k \<in> fst ` set okvs. declares ext (Object f ks ps) k)"
proof -
  let ?cs = "map (map_prod id (validate ext)) ks"
  let ?pcs = "map (map_prod (validate ext) (validate ext)) ps"
  from v obtain kvs1 okvs where "validate_keys ?cs kvs = Inr kvs1"
    and u: "validate_unknown (map fst ks) ?pcs kvs1 = Inr okvs" and o: "out = JObj okvs"
    unfolding validateAgainstSchema_object[OF a] by (auto split: sum.splits)
  have "declares ext (Object f ks ps) k" if "k \<in> fst ` set okvs" for k
    using validate_unknown_subset[OF u that] match_pattern_declares[of ext ps k] by auto
  with o show ?thesis by blast
qed

lemma object_delete_undeclared:
  assumes a: "allowed f = []" "\<not> only f" and n: "\<not> declares ext (Object f ks ps) k"
  shows "validateAgainstSchema ext (JObj (AList.delete k kvs)) (Some (Object f ks ps))
       = validateAgainstSchema ext (JObj kvs) (Some (Object f ks ps))"
proof -
  let ?cs = "map (map_prod id (validate ext)) ks"
  let ?pcs = "map (map_prod (validate ext) (validate ext)) ps"
  from n have nk: "k \<notin> fst ` set ?cs" and nd: "k \<notin> set (map fst ks)"
    and np: "\<forall>v. match_pattern ?pcs k v = None"
    using match_pattern_undeclared[of ext k ps] by (auto simp: comp_def image_image)
  show ?thesis
    unfolding validateAgainstSchema_object[OF a] validate_keys_delete[OF nk]
    by (cases "validate_keys ?cs kvs") (simp_all add: validate_unknown_delete[OF nd np])
qed

lemma strips_unknown_direct:
  assumes V: "\<And>kvs. V (JObj kvs) = Inr (validateAgainstSchema ext (JObj kvs) (Some (Object f ks ps)))"
    and a: "allowed f = []" "\<not> only f"
  shows "strips_unknown ext V (Object f ks ps)"
  unfolding strips_unknown_def
  using object_output_declared[OF a] object_delete_undeclared[OF a]
  by (auto simp: V)

lemma strips_unknown_array:
  assumes V: "\<And>kvs. V (JObj kvs) = Inr (validateAgainstSchema ext (JObj kvs) (Some (Array f s)))"
    and a: "allowed f = []" "\<not> only f"
  shows "strips_unknown ext V (Array f s)"
  unfolding strips_unknown_def
  using a by (simp add: V validateAgainstSchema_def validate_with_def)

lemma strips_unknown_v1:
  assumes a: "allowed f = []" "\<not> only f" and t: "(str ''teams'') \<in> set (map fst ks)"
  shows "strips_unknown ext
           (\<lambda>d. case replace_teams ext cb d of
                  Inl e \<Rightarrow> Inl e
                | Inr d1 \<Rightarrow> Inr (validateAgainstSchema ext d1 (Some (Object f ks ps))))
           (Object f ks ps)"
  unfolding strips_unknown_def
proof (intro allI conjI impI)
  fix kvs lg out
  assume "(case replace_teams ext cb (JObj kvs) of Inl e \<Rightarrow> Inl e
      | Inr d1 \<Rightarrow> Inr (validateAgainstSchema ext d1 (Some (Object f ks ps)))) = Inr (lg, Some out)"
  then obtain d1 where r: "replace_teams ext cb (JObj kvs) = Inr d1"
    and v: "validateAgainstSchema ext d1 (Some (Object f ks ps)) = (lg, Some out)"
    by (auto simp: str_simps split: sum.splits)
  from replace_teams_object[OF r] obtain kvs1 where "d1 = JObj kvs1" by blast
  with v object_output_declared[OF a] show
    "\<exists>okvs. out = JObj okvs \<and> (\<forall>k \<in> fst ` set okvs. declares ext (Object f ks ps) k)" by blast
next
  fix kvs k
  assume n: "\<not> declares ext (Object f ks ps) k"
  with t have ne: "k \<noteq> (str ''teams'')" by (auto simp: str_simps)
  show "(case replace_teams ext cb (JObj (AList.delete k kvs)) of Inl e \<Rightarrow> Inl e
      | Inr d1 \<Rightarrow> Inr (validateAgainstSchema ext d1 (Some (Object f ks ps))))
      = (case replace_teams ext cb (JObj kvs) of Inl e \<Rightarrow> Inl e
      | Inr d1 \<Rightarrow> Inr (validateAgainstSchema ext d1 (Some (Object f ks ps))))"
  proof (cases "replace_teams ext cb (JObj kvs)")
    case (Inl e)
    then show ?thesis by (simp add: str_simps replace_teams_delete[OF ne])
  next
    case (Inr d1)
    from replace_teams_object[OF Inr] obtain kvs1 where "d1 = JObj kvs1" by blast
    with Inr show ?thesis
      by (simp add: str_simps replace_teams_delete[OF ne] object_delete_undeclared[OF a n])
  qed
qed

lemma strips_unknown_run:
  assumes a: "allowed f = []" "\<not> only f" and t: "(str ''teams'') \<in> set (map fst ks)"
    and sp: "(str ''spellCheckerURL'') \<in> set (map fst ks)"
  shows "strips_unknown ext (config_run ext cb (Object f ks ps)) (Object f ks ps)"
  unfolding strips_unknown_def
proof (intro allI conjI impI)
  fix kvs lg out
  assume "config_run ext cb (Object f ks ps) (JObj kvs) = Inr (lg, Some out)"
  from config_run_result[OF this] obtain kvs2 lg2 where
    "validateAgainstSchema ext (JObj kvs2) (Some (Object f ks ps)) = (lg2, Some out)"
    by (elim exE conjE) (rule that)
  with object_output_declared[OF a] show
    "\<exists>okvs. out = JObj okvs \<and> (\<forall>k \<in> fst ` set okvs. declares ext (Object f ks ps) k)" by blast
next
  fix kvs k
  assume n: "\<not> declares ext (Object f ks ps) k"
  with t sp have ne: "k \<noteq> (str ''teams'')" "k \<noteq> (str ''spellCheckerURL'')" by (auto simp: str_simps)
  show "config_run ext cb (Object f ks ps) (JObj (AList.delete k kvs))
      = config_run ext cb (Object f ks ps) (JObj kvs)"
  proof (cases "sanitize ext cb (JObj kvs)")
    case (Inl e)
    then show ?thesis by (simp add: str_simps config_run_def sanitize_delete[OF ne])
  next
    case (Inr p)
    obtain lg1 d2 where p: "p = (lg1, d2)" by (cases p)
    from sanitize_object[OF Inr[unfolded p]] obtain kvs2 where "d2 = JObj kvs2" by blast
    with Inr p show ?thesis
      by (simp add: str_simps config_run_def sanitize_delete[OF ne] object_delete_undeclared[OF a n])
  qed
qed

lemma no_flags_plain: "allowed no_flags = []" "\<not> only no_flags"
  by (simp_all add: no_flags_def)

lemma strips_unknown_Args: "strips_unknown ext (validateArgs ext) argsSchema"
  unfolding argsSchema_def Joi_object_def
  by (rule strips_unknown_direct) (simp_all add: validateArgs_def argsSchema_def Joi_object_def no_flags_plain)

lemma strips_unknown_BoundsInfo: "strips_unknown ext (validateBoundsInfo ext) boundsInfoSchema"
  unfolding boundsInfoSchema_def Joi_object_def
  by (rule strips_unknown_direct)
     (simp_all add: validateBoundsInfo_def boundsInfoSchema_def Joi_object_def no_flags_plain)

lemma strips_unknown_AppState: "strips_unknown ext (validateAppState ext) appStateSchema"
  unfolding appStateSchema_def Joi_object_def
  by (rule strips_unknown_direct)
     (simp_all add: validateAppState_def appStateSchema_def Joi_object_def no_flags_plain)

lemma strips_unknown_V0: "strips_unknown ext (validateV0ConfigData ext) configDataSchemaV0"
  unfolding configDataSchemaV0_def Joi_object_def
  by (rule strips_unknown_direct)
     (simp_all add: validateV0ConfigData_def configDataSchemaV0_def Joi_object_def no_flags_plain)

lemma strips_unknown_OriginPermissions:
  "strips_unknown ext (validateOriginPermissions ext) originPermissionsSchema"
  unfolding originPermissionsSchema_def Joi_object_def
  by (rule strips_unknown_direct)
     (simp_all add: validateOriginPermissions_def originPermissionsSchema_def Joi_object_def
        no_flags_plain)

lemma strips_unknown_CertificateStore:
  "strips_unknown ext (validateCertificateStore ext) certificateStoreSchema"
  unfolding certificateStoreSchema_def Joi_object_def joi_pattern.simps
  by (rule strips_unknown_direct)
     (simp_all add: validateCertificateStore_def certificateStoreSchema_def Joi_object_def
        no_flags_plain)

lemma strips_unknown_TrustedOriginsStore:
  "strips_unknown ext (validateTrustedOriginsStore ext) trustedOriginsSchema"
  unfolding trustedOriginsSchema_def Joi_object_def joi_pattern.simps
  by (rule strips_unknown_direct)
     (simp_all add: validateTrustedOriginsStore_def trustedOriginsSchema_def Joi_object_def
        no_flags_plain)

lemma strips_unknown_AllowedProtocols:
  "strips_unknown ext (validateAllowedProtocols ext) allowedProtocolsSchema"
  unfolding allowedProtocolsSchema_def Joi_array_items_def
  by (rule strips_unknown_array)
     (simp_all add: validateAllowedProtocols_def allowedProtocolsSchema_def Joi_array_items_def
        no_flags_plain)

lemma validateV1ConfigData_fun:
  "validateV1ConfigData ext =
     (\<lambda>d. case replace_teams ext (clean_team_v1 ext) d of
            Inl e \<Rightarrow> Inl e
          | Inr d1 \<Rightarrow> Inr (validateAgainstSchema ext d1 (Some configDataSchemaV1)))"
  by (rule ext) (simp add: validateV1ConfigData_def)

lemma strips_unknown_V1: "strips_unknown ext (validateV1ConfigData ext) configDataSchemaV1"
  unfolding validateV1ConfigData_fun
  unfolding configDataSchemaV1_def Joi_object_def
  by (rule strips_unknown_v1) (simp_all add: no_flags_plain)

lemma validateV2ConfigData_fun:
  "validateV2ConfigData ext = config_run ext (clean_team ext) configDataSchemaV2"
  by (rule ext) (rule validateV2ConfigData_run)

lemma validateV3ConfigData_fun:
  "validateV3ConfigData ext = config_run ext (clean_team ext) configDataSchemaV3"
  by (rule ext) (rule validateV3ConfigData_run)

lemma strips_unknown_V2: "strips_unknown ext (validateV2ConfigData ext) configDataSchemaV2"
  unfolding validateV2ConfigData_fun
  unfolding configDataSchemaV2_def Joi_object_def
  by (rule strips_unknown_run) (simp_all add: no_flags_plain)

lemma strips_unknown_V3: "strips_unknown ext (validateV3ConfigData ext) configDataSchemaV3"
  unfolding validateV3ConfigData_fun
  unfolding configDataSchemaV3_def Joi_object_def
  by (rule strips_unknown_run) (simp_all add: no_flags_plain)

lemma validators_strip_unknown:
  assumes "(V, S) \<in> set validators"
  shows "strips_unknown ext (V ext) S"
proof -
  from assms have "(V, S) = (validateArgs, argsSchema) \<or> (V, S) = (validateBoundsInfo, boundsInfoSchema)
    \<or> (V, S) = (validateAppState, appStateSchema) \<or> (V, S) = (validateV0ConfigData, configDataSchemaV0)
    \<or> (V, S) = (validateV1ConfigData, configDataSchemaV1) \<or> (V, S) = (validateV2ConfigData, configDataSchemaV2)
    \<or> (V, S) = (validateV3ConfigData, configDataSchemaV3)
    \<or> (V, S) = (validateCertificateStore, certificateStoreSchema)
    \<or> (V, S) = (validateAllowedProtocols, allowedProtocolsSchema)
    \<or> (V, S) = (validateTrustedOriginsStore, trustedOriginsSchema)
    \<or> (V, S) = (validateOriginPermissions, originPermissionsSchema)"
    unfolding validators_def by simp
  then show ?thesis
    using strips_unknown_Args strips_unknown_BoundsInfo strips_unknown_AppState strips_unknown_V0
      strips_unknown_V1 strips_unknown_V2 strips_unknown_V3 strips_unknown_CertificateStore
      strips_unknown_AllowedProtocols strips_unknown_TrustedOriginsStore
      strips_unknown_OriginPermissions
    by (elim disjE) simp_all
qed

text \<open>
  C6. For each of the eleven validators and every input record: every top-level key of
  a returned record is declared by the validator's schema, and an undeclared key has no
  effect at all, since the call gives the same outcome on the record without that key;
  so an unknown key never makes the result null.
\<close>

theorem unknown_fields_stripped:
  "(V, S) \<in> set validators \<Longrightarrow>
     (\<forall>lg out. V ext (JObj kvs) = Inr (lg, Some out) \<longrightarrow>
        (\<exists>okvs. out = JObj okvs \<and> (\<forall>k' \<in> fst ` set okvs. declares ext S k')))
     \<and> (\<not> declares ext S k \<longrightarrow> V ext (JObj (AList.delete k kvs)) = V ext (JObj kvs))"
  using validators_strip_unknown[of V S ext] unfolding strips_unknown_def by blast

theorem unknown_fields_stripped_witness:
  "(validateBoundsInfo, boundsInfoSchema) \<in> set validators
   \<and> \<not> declares sample_externals boundsInfoSchema (str ''theme'')
   \<and> validateBoundsInfo sample_externals
        (JObj (AList.delete (str ''theme'') [(str ''width'', JNum 500), (str ''theme'', JStr (str ''dark'')), (str ''height'', JNum 300)]))
     = validateBoundsInfo sample_externals
        (JObj [(str ''width'', JNum 500), (str ''theme'', JStr (str ''dark'')), (str ''height'', JNum 300)])
   \<and> (\<exists>lg okvs. validateBoundsInfo sample_externals
        (JObj [(str ''width'', JNum 500), (str ''theme'', JStr (str ''dark'')), (str ''height'', JNum 300)]) = Inr (lg, Some (JObj okvs))
        \<and> (str ''theme'') \<notin> fst ` set okvs)"
proof -
  have m: "(validateBoundsInfo, boundsInfoSchema) \<in> set validators"
    by (simp add: str_simps validators_def)
  have n: "\<not> declares sample_externals boundsInfoSchema (str ''theme'')"
    by (simp add: str_simps boundsInfoSchema_def Joi_object_def)
  note t = unknown_fields_stripped[OF m, where ext = sample_externals
      and kvs = "[(str ''width'', JNum 500), (str ''theme'', JStr (str ''dark'')), (str ''height'', JNum 300)]"
      and k = "(str ''theme'')"]
  note c1 = t[THEN conjunct2, THEN mp, OF n]
  have "returns_record (validateBoundsInfo sample_externals
        (JObj [(str ''width'', JNum 500), (str ''theme'', JStr (str ''dark'')), (str ''height'', JNum 300)]))"
    by (simp add: str_simps returns_record_def validateBoundsInfo_def schema_defs builder_defs run_defs
        minWindowWidth_def minWindowHeight_def)
  then obtain lg out where e: "validateBoundsInfo sample_externals
        (JObj [(str ''width'', JNum 500), (str ''theme'', JStr (str ''dark'')), (str ''height'', JNum 300)]) = Inr (lg, Some out)"
    unfolding returns_record_iff by blast
  from t[THEN conjunct1, rule_format, OF e] obtain okvs where o: "out = JObj okvs"
    and d: "\<forall>k' \<in> fst ` set okvs. declares sample_externals boundsInfoSchema k'" by blast
  from d n have "(str ''theme'') \<notin> fst ` set okvs" by blast
  with e o have c2: "\<exists>lg okvs. validateBoundsInfo sample_externals
        (JObj [(str ''width'', JNum 500), (str ''theme'', JStr (str ''dark'')), (str ''height'', JNum 300)]) = Inr (lg, Some (JObj okvs))
        \<and> (str ''theme'') \<notin> fst ` set okvs" by blast
  show ?thesis by (intro conjI m n c1 c2)
qed

section \<open>The teams of a configuration\<close>

lemma clean_team_result:
  assumes "(clean_team ext) t = Inr c"
  shows "get_prop c (str ''name'') = get_prop t (str ''name'')" and "get_prop c (str ''url'') = url_after_cleaning ext t"
    and "has_valid_url ext c = keeps ext t"
proof -
  from assms obtain kvs u where t: "t = JObj kvs" and u: "clean_value ext (map_of kvs (str ''url'')) = Inr u"
    and c: "c = JObj (AList.update (str ''url'') u kvs)"
    by (cases "(ext, t)" rule: clean_team.cases) (auto simp: str_simps split: sum.splits)
  show "get_prop c (str ''name'') = get_prop t (str ''name'')" using t c by (simp add: str_simps AList.update_conv')
  show "get_prop c (str ''url'') = url_after_cleaning ext t"
    using t c u by (simp add: str_simps AList.update_conv' url_after_cleaning_def)
  then show "has_valid_url ext c = keeps ext t"
    using t u by (simp add: str_simps has_valid_url_def keeps_def url_after_cleaning_def)
qed

lemma clean_team_v1_result:
  assumes "(clean_team_v1 ext) t = Inr c"
  shows "get_prop c (str ''name'') = get_prop t (str ''name'')" and "get_prop c (str ''url'') = url_after_cleaning ext t"
    and "has_valid_url ext c = keeps ext t"
proof -
  from assms obtain u where u: "clean_value ext (get_prop t (str ''url'')) = Inr u"
    and c: "c = JObj ((case get_prop t (str ''name'') of None \<Rightarrow> [] | Some n \<Rightarrow> [(str ''name'', n)]) @ [(str ''url'', u)])"
    by (cases "(ext, t)" rule: clean_team_v1.cases) (auto simp: str_simps split: sum.splits)
  show "get_prop c (str ''name'') = get_prop t (str ''name'')" using c by (simp add: str_simps split: option.splits)
  show "get_prop c (str ''url'') = url_after_cleaning ext t"
    using c u by (simp add: str_simps url_after_cleaning_def split: option.splits)
  then show "has_valid_url ext c = keeps ext t"
    using u by (simp add: str_simps has_valid_url_def keeps_def url_after_cleaning_def)
qed

lemma map_throw_list_all2:
  "map_throw f xs = Inr ys \<Longrightarrow> list_all2 (\<lambda>x y. f x = Inr y) xs ys"
  by (induction xs arbitrary: ys) (auto split: sum.splits)

lemma validate_items_list_all2:
  "validate_items c xs = Inr ys \<Longrightarrow> list_all2 (\<lambda>x y. c (Some x) = Inr (Some y)) xs ys"
  by (induction xs arbitrary: ys) (auto split: sum.splits option.splits)

lemma list_all2_filter:
  "list_all2 R xs ys \<Longrightarrow> (\<And>x y. R x y \<Longrightarrow> P x = Q y) \<Longrightarrow>
   list_all2 R (filter P xs) (filter Q ys)"
  by (induction rule: list_all2_induct) auto

lemma required_string_same:
  "validate ext (joi_required Joi_string) v = Inr r \<Longrightarrow> r = v"
  by (cases v)
     (auto simp: builder_defs validate_with_def split: sum.splits if_splits json.splits
       elim!: base_string.elims)

lemma team_item_keeps_name_url:
  assumes dt: "distinct (map fst tks)"
    and nm: "(str ''name'', joi_required Joi_string) \<in> set tks"
    and ur: "(str ''url'', joi_required Joi_string) \<in> set tks"
    and v: "validate ext (Joi_object tks) (Some x) = Inr (Some y)"
  shows "get_prop y (str ''name'') = get_prop x (str ''name'') \<and> get_prop y (str ''url'') = get_prop x (str ''url'')"
proof -
  from v obtain xkvs where x: "x = JObj xkvs"
    by (cases x) (auto simp: str_simps Joi_object_def no_flags_def validate_with_def)
  from v[unfolded x] have "validateAgainstSchema ext (JObj xkvs) (Some (Joi_object tks)) = ([], Some y)"
    by (simp add: str_simps validateAgainstSchema_def)
  from validateAgainstSchema_child[OF dt this nm] validateAgainstSchema_child[OF dt this ur]
  show ?thesis using x by (auto simp: str_simps dest: required_string_same)
qed

lemma output_teams:
  assumes d: "distinct (map fst ks)"
    and tk: "(str ''teams'', joi_default (JArr []) (Joi_array_items (Joi_object tks))) \<in> set ks"
    and dt: "distinct (map fst tks)"
    and nm: "(str ''name'', joi_required Joi_string) \<in> set tks"
    and ur: "(str ''url'', joi_required Joi_string) \<in> set tks"
    and v: "validateAgainstSchema ext (JObj kvs) (Some (Joi_object ks)) = (lg, Some out)"
    and m: "map_of kvs (str ''teams'') = Some (JArr fs)"
  shows "\<exists>ys. get_prop out (str ''teams'') = Some (JArr ys)
     \<and> list_all2 (\<lambda>x y. validate ext (Joi_object tks) (Some x) = Inr (Some y)
                    \<and> get_prop y (str ''name'') = get_prop x (str ''name'')
                    \<and> get_prop y (str ''url'') = get_prop x (str ''url'')) fs ys"
proof -
  from validateAgainstSchema_child[OF d v tk] m
  have "validate ext (joi_default (JArr []) (Joi_array_items (Joi_object tks))) (Some (JArr fs))
      = Inr (get_prop out (str ''teams''))" by (simp add: str_simps)
  then obtain ys where ys: "validate_items (validate ext (Joi_object tks)) fs = Inr ys"
    and o: "get_prop out (str ''teams'') = Some (JArr ys)"
    by (auto simp: str_simps joi_default_def Joi_array_items_def no_flags_def validate_with_def
        split: sum.splits)
  from validate_items_list_all2[OF ys]
  have "list_all2 (\<lambda>x y. validate ext (Joi_object tks) (Some x) = Inr (Some y)) fs ys" .
  then have "list_all2 (\<lambda>x y. validate ext (Joi_object tks) (Some x) = Inr (Some y)
                    \<and> get_prop y (str ''name'') = get_prop x (str ''name'')
                    \<and> get_prop y (str ''url'') = get_prop x (str ''url'')) fs ys"
    by (rule list_all2_mono) (use team_item_keeps_name_url[OF dt nm ur] in blast)
  with o show ?thesis by blast
qed

lemma replace_teams_nonempty:
  assumes "map_of kvs (str ''teams'') = Some (JArr ts)" and "ts \<noteq> []"
    and "replace_teams ext cb (JObj kvs) = Inr d1"
  shows "\<exists>cs. map_throw cb ts = Inr cs
    \<and> d1 = JObj (AList.update (str ''teams'') (JArr (filter (has_valid_url ext) cs)) kvs)"
proof -
  from assms(2) obtain t ts0 where "ts = t # ts0" by (cases ts) (auto simp: str_simps)
  with assms(1,3) show ?thesis
    by (auto simp: str_simps replace_teams_def split: sum.splits)
qed

lemma sanitize_teams:
  assumes "map_of kvs (str ''teams'') = Some (JArr ts)" and "ts \<noteq> []"
    and "sanitize ext cb (JObj kvs) = Inr (lg1, JObj kvs2)"
  shows "\<exists>cs. map_throw cb ts = Inr cs
    \<and> map_of kvs2 (str ''teams'') = Some (JArr (filter (has_valid_url ext) cs))"
proof -
  from assms(3) obtain d1 where r: "replace_teams ext cb (JObj kvs) = Inr d1"
    and dr: "drop_spellCheckerURL ext d1 = (lg1, JObj kvs2)"
    by (auto simp: str_simps sanitize_def split: sum.splits)
  from replace_teams_nonempty[OF assms(1,2) r] obtain cs where cs: "map_throw cb ts = Inr cs"
    and d1: "d1 = JObj (AList.update (str ''teams'') (JArr (filter (has_valid_url ext) cs)) kvs)"
    by blast
  from drop_spellCheckerURL_object[OF dr[unfolded d1]]
  have "map_of kvs2 (str ''teams'')
      = map_of (AList.update (str ''teams'') (JArr (filter (has_valid_url ext) cs)) kvs) (str ''teams'')"
    by (auto simp: str_simps)
  with cs show ?thesis by (simp add: str_simps AList.update_conv')
qed

lemma kept_teams:
  assumes cbr: "\<And>t c. cb t = Inr c \<Longrightarrow>
        get_prop c (str ''name'') = get_prop t (str ''name'') \<and> get_prop c (str ''url'') = url_after_cleaning ext t
        \<and> has_valid_url ext c = keeps ext t"
    and mt: "map_throw cb ts = Inr cs"
    and la: "list_all2 (\<lambda>x y. W x y \<and> get_prop y (str ''name'') = get_prop x (str ''name'')
                    \<and> get_prop y (str ''url'') = get_prop x (str ''url'')) (filter (has_valid_url ext) cs) ys"
  shows "list_all2 (\<lambda>t t'. get_prop t' (str ''name'') = get_prop t (str ''name'')
                     \<and> get_prop t' (str ''url'') = url_after_cleaning ext t) (filter (keeps ext) ts) ys"
proof -
  have "list_all2 (\<lambda>t c. cb t = Inr c) ts cs" using mt by (rule map_throw_list_all2)
  then have "list_all2 (\<lambda>t c. cb t = Inr c) (filter (keeps ext) ts) (filter (has_valid_url ext) cs)"
    by (rule list_all2_filter) (use cbr in simp)
  then show ?thesis
  proof (rule list_all2_trans[rotated])
    show "list_all2 (\<lambda>x y. W x y \<and> get_prop y (str ''name'') = get_prop x (str ''name'')
                    \<and> get_prop y (str ''url'') = get_prop x (str ''url'')) (filter (has_valid_url ext) cs) ys"
      by (rule la)
  next
    fix a b c
    assume "cb a = Inr b" and "W b c \<and> get_prop c (str ''name'') = get_prop b (str ''name'')
                    \<and> get_prop c (str ''url'') = get_prop b (str ''url'')"
    with cbr[of a b] show "get_prop c (str ''name'') = get_prop a (str ''name'')
        \<and> get_prop c (str ''url'') = url_after_cleaning ext a" by (simp add: str_simps)
  qed
qed

lemma config_run_teams:
  assumes d: "distinct (map fst ks)"
    and tk: "(str ''teams'', joi_default (JArr []) (Joi_array_items (Joi_object tks))) \<in> set ks"
    and dt: "distinct (map fst tks)"
    and nm: "(str ''name'', joi_required Joi_string) \<in> set tks"
    and ur: "(str ''url'', joi_required Joi_string) \<in> set tks"
    and m: "map_of kvs (str ''teams'') = Some (JArr ts)" and ne: "ts \<noteq> []"
    and r: "config_run ext (clean_team ext) (Joi_object ks) (JObj kvs) = Inr (lg, Some out)"
  shows "\<exists>ts'. get_prop out (str ''teams'') = Some (JArr ts')
     \<and> list_all2 (\<lambda>t t'. get_prop t' (str ''name'') = get_prop t (str ''name'')
                     \<and> get_prop t' (str ''url'') = url_after_cleaning ext t) (filter (keeps ext) ts) ts'"
proof -
  from config_run_result[OF r] obtain kvs2 lg1 lg2 where
    s: "sanitize ext (clean_team ext) (JObj kvs) = Inr (lg1, JObj kvs2)"
    and v: "validateAgainstSchema ext (JObj kvs2) (Some (Joi_object ks)) = (lg2, Some out)"
    by (elim exE conjE) (rule that)
  from sanitize_teams[OF m ne s] obtain cs where cs: "map_throw (clean_team ext) ts = Inr cs"
    and m2: "map_of kvs2 (str ''teams'') = Some (JArr (filter (has_valid_url ext) cs))" by blast
  from output_teams[OF d tk dt nm ur v m2] obtain ys where o: "get_prop out (str ''teams'') = Some (JArr ys)"
    and la: "list_all2 (\<lambda>x y. validate ext (Joi_object tks) (Some x) = Inr (Some y)
                    \<and> get_prop y (str ''name'') = get_prop x (str ''name'')
                    \<and> get_prop y (str ''url'') = get_prop x (str ''url'')) (filter (has_valid_url ext) cs) ys"
    by (elim exE conjE) (rule that)
  have "list_all2 (\<lambda>t t'. get_prop t' (str ''name'') = get_prop t (str ''name'')
                     \<and> get_prop t' (str ''url'') = url_after_cleaning ext t) (filter (keeps ext) ts) ys"
    by (rule kept_teams[OF _ cs la]) (simp add: str_simps clean_team_result)
  with o show ?thesis by blast
qed

lemma v1_teams:
  assumes d: "distinct (map fst ks)"
    and tk: "(str ''teams'', joi_default (JArr []) (Joi_array_items (Joi_object tks))) \<in> set ks"
    and dt: "distinct (map fst tks)"
    and nm: "(str ''name'', joi_required Joi_string) \<in> set tks"
    and ur: "(str ''url'', joi_required Joi_string) \<in> set tks"
    and m: "map_of kvs (str ''teams'') = Some (JArr ts)" and ne: "ts \<noteq> []"
    and r: "replace_teams ext (clean_team_v1 ext) (JObj kvs) = Inr d1"
    and v: "validateAgainstSchema ext d1 (Some (Joi_object ks)) = (lg, Some out)"
  shows "\<exists>ts'. get_prop out (str ''teams'') = Some (JArr ts')
     \<and> list_all2 (\<lambda>t t'. get_prop t' (str ''name'') = get_prop t (str ''name'')
                     \<and> get_prop t' (str ''url'') = url_after_cleaning ext t) (filter (keeps ext) ts) ts'"
proof -
  from replace_teams_nonempty[OF m ne r] obtain cs where cs: "map_throw (clean_team_v1 ext) ts = Inr cs"
    and d1: "d1 = JObj (AList.update (str ''teams'') (JArr (filter (has_valid_url ext) cs)) kvs)"
    by blast
  have m2: "map_of (AList.update (str ''teams'') (JArr (filter (has_valid_url ext) cs)) kvs) (str ''teams'')
      = Some (JArr (filter (has_valid_url ext) cs))"
    by (simp add: str_simps AList.update_conv')
  from output_teams[OF d tk dt nm ur v[unfolded d1] m2] obtain ys where
    o: "get_prop out (str ''teams'') = Some (JArr ys)"
    and la: "list_all2 (\<lambda>x y. validate ext (Joi_object tks) (Some x) = Inr (Some y)
                    \<and> get_prop y (str ''name'') = get_prop x (str ''name'')
                    \<and> get_prop y (str ''url'') = get_prop x (str ''url'')) (filter (has_valid_url ext) cs) ys"
    by (elim exE conjE) (rule that)
  have "list_all2 (\<lambda>t t'. get_prop t' (str ''name'') = get_prop t (str ''name'')
                     \<and> get_prop t' (str ''url'') = url_after_cleaning ext t) (filter (keeps ext) ts) ys"
    by (rule kept_teams[OF _ cs la]) (simp add: str_simps clean_team_v1_result)
  with o show ?thesis by blast
qed

lemma V1_teams_shape:
  "\<exists>ks tks. configDataSchemaV1 = Joi_object ks \<and> distinct (map fst ks)
     \<and> (str ''teams'', joi_default (JArr []) (Joi_array_items (Joi_object tks))) \<in> set ks
     \<and> distinct (map fst tks)
     \<and> (str ''name'', joi_required Joi_string) \<in> set tks
     \<and> (str ''url'', joi_required Joi_string) \<in> set tks"
  unfolding configDataSchemaV1_def
  apply (intro exI conjI)
       apply (rule refl)
      apply (simp add: str_simps str_simps)
     apply (simp add: str_simps str_simps)
    apply (simp add: str_simps str_simps)
   apply (simp add: str_simps str_simps)
  apply (simp add: str_simps str_simps)
  done

lemma V2_teams_shape:
  "\<exists>ks tks. configDataSchemaV2 = Joi_object ks \<and> distinct (map fst ks)
     \<and> (str ''teams'', joi_default (JArr []) (Joi_array_items (Joi_object tks))) \<in> set ks
     \<and> distinct (map fst tks)
     \<and> (str ''name'', joi_required Joi_string) \<in> set tks
     \<and> (str ''url'', joi_required Joi_string) \<in> set tks"
  unfolding configDataSchemaV2_def
  apply (intro exI conjI)
       apply (rule refl)
      apply (simp add: str_simps str_simps)
     apply (simp add: str_simps str_simps)
    apply (simp add: str_simps str_simps)
   apply (simp add: str_simps str_simps)
  apply (simp add: str_simps str_simps)
  done

lemma V3_teams_shape:
  "\<exists>ks tks. configDataSchemaV3 = Joi_object ks \<and> distinct (map fst ks)
     \<and> (str ''teams'', joi_default (JArr []) (Joi_array_items (Joi_object tks))) \<in> set ks
     \<and> distinct (map fst tks)
     \<and> (str ''name'', joi_required Joi_string) \<in> set tks
     \<and> (str ''url'', joi_required Joi_string) \<in> set tks"
  unfolding configDataSchemaV3_def
  apply (intro exI conjI)
       apply (rule refl)
      apply (simp add: str_simps str_simps)
     apply (simp add: str_simps str_simps)
    apply (simp add: str_simps str_simps)
   apply (simp add: str_simps str_simps)
  apply (simp add: str_simps str_simps)
  done

lemma map_throw_filter:
  "map_throw f xs = Inr ys \<Longrightarrow> (\<And>x y. f x = Inr y \<Longrightarrow> P x = Q y) \<Longrightarrow>
   map_throw f (filter P xs) = Inr (filter Q ys)"
proof (induction xs arbitrary: ys)
  case Nil
  then show ?case by simp
next
  case (Cons x xs)
  from Cons.prems(1) obtain y ys' where y: "f x = Inr y" and r: "map_throw f xs = Inr ys'"
    and ys: "ys = y # ys'" by (auto split: sum.splits)
  from Cons.IH[OF r Cons.prems(2)] have ih: "map_throw f (filter P xs) = Inr (filter Q ys')" .
  from Cons.prems(2)[OF y] have pq: "P x = Q y" .
  show ?case using y ih pq ys by simp
qed

lemma replace_teams_bad_removed:
  assumes m: "map_of kvs (str ''teams'') = Some (JArr ts)" and ne: "ts \<noteq> []"
    and r: "replace_teams ext cb (JObj kvs) = Inr d1"
    and cbr: "\<And>t c. cb t = Inr c \<Longrightarrow> has_valid_url ext c = keeps ext t"
  shows "replace_teams ext cb (JObj (AList.update (str ''teams'') (JArr (filter (keeps ext) ts)) kvs))
       = replace_teams ext cb (JObj kvs)"
proof -
  from replace_teams_nonempty[OF m ne r] obtain cs where cs: "map_throw cb ts = Inr cs"
    and d1: "d1 = JObj (AList.update (str ''teams'') (JArr (filter (has_valid_url ext) cs)) kvs)"
    by blast
  let ?kvs' = "AList.update (str ''teams'') (JArr (filter (keeps ext) ts)) kvs"
  have m': "map_of ?kvs' (str ''teams'') = Some (JArr (filter (keeps ext) ts))"
    by (simp add: AList.update_conv')
  have f: "map_throw cb (filter (keeps ext) ts) = Inr (filter (has_valid_url ext) cs)"
    by (rule map_throw_filter[OF cs]) (simp add: cbr)
  show ?thesis
  proof (cases "filter (keeps ext) ts")
    case Nil
    with f have "filter (has_valid_url ext) cs = []" by simp
    with Nil m' r d1 show ?thesis by (simp add: replace_teams_def)
  next
    case (Cons a as)
    with f m' have "replace_teams ext cb (JObj ?kvs')
        = Inr (JObj (AList.update (str ''teams'') (JArr (filter (has_valid_url ext) (filter (has_valid_url ext) cs))) ?kvs'))"
      by (simp add: replace_teams_def)
    then show ?thesis using r d1 by (simp add: AList.update_last)
  qed
qed

lemma config_validator_returns:
  assumes V: "V \<in> {validateV1ConfigData, validateV2ConfigData, validateV3ConfigData}"
    and d: "d \<noteq> JNull"
    and t: "\<forall>ts. get_prop d (str ''teams'') = Some (JArr ts) \<longrightarrow> list_all team_with_url ts"
  shows "\<exists>r. V ext d = Inr r"
proof -
  from replace_teams_returns[OF d t, of "clean_team_v1 ext" ext] team_with_url_cleans(2)
  obtain d1 where "replace_teams ext (clean_team_v1 ext) d = Inr d1" by blast
  then have v1: "\<exists>r. validateV1ConfigData ext d = Inr r"
    by (simp add: validateV1ConfigData_def)
  from replace_teams_returns[OF d t, of "clean_team ext" ext] team_with_url_cleans(1)
  obtain d2 where "replace_teams ext (clean_team ext) d = Inr d2" by blast
  then have "(\<exists>r. validateV2ConfigData ext d = Inr r) \<and> (\<exists>r. validateV3ConfigData ext d = Inr r)"
    by (simp add: validateV2ConfigData_def validateV3ConfigData_def split: prod.splits)
  with v1 V show ?thesis by blast
qed

lemma bad_teams_removed_same_outcome:
  assumes V: "V \<in> {validateV1ConfigData, validateV2ConfigData, validateV3ConfigData}"
    and m: "map_of kvs (str ''teams'') = Some (JArr ts)" and ne: "ts \<noteq> []"
    and ret: "V ext (JObj kvs) = Inr r"
  shows "V ext (JObj (AList.update (str ''teams'') (JArr (filter (keeps ext) ts)) kvs))
       = V ext (JObj kvs)"
proof -
  from V consider "V = validateV1ConfigData" | "V = validateV2ConfigData" | "V = validateV3ConfigData"
    by blast
  then show ?thesis
  proof cases
    case 1
    from ret[unfolded 1] obtain d1 where "replace_teams ext (clean_team_v1 ext) (JObj kvs) = Inr d1"
      by (auto simp: validateV1ConfigData_def split: sum.splits)
    from replace_teams_bad_removed[OF m ne this] clean_team_v1_result(3)
    show ?thesis unfolding 1 by (simp add: validateV1ConfigData_def)
  next
    case 2
    from ret[unfolded 2] obtain d1 where "replace_teams ext (clean_team ext) (JObj kvs) = Inr d1"
      by (auto simp: validateV2ConfigData_def split: sum.splits)
    from replace_teams_bad_removed[OF m ne this] clean_team_result(3)
    show ?thesis unfolding 2 by (simp add: validateV2ConfigData_def)
  next
    case 3
    from ret[unfolded 3] obtain d1 where "replace_teams ext (clean_team ext) (JObj kvs) = Inr d1"
      by (auto simp: validateV3ConfigData_def split: sum.splits)
    from replace_teams_bad_removed[OF m ne this] clean_team_result(3)
    show ?thesis unfolding 3 by (simp add: validateV3ConfigData_def)
  qed
qed

lemma example_teams_outcome:
  assumes "isValidURL ext (JStr (str ''http://a.b''))" and "\<not> isValidURL ext (JStr (str ''bad url''))"
    and "isValidURL ext (JStr (str ''http://c.d''))"
  shows "\<exists>lg out. validateV1ConfigData ext (JObj [(str ''teams'', JArr example_teams)]) = Inr (lg, Some out)
          \<and> get_prop out (str ''teams'') = Some (JArr
               [JObj [(str ''name'', JStr (str ''a'')), (str ''url'', JStr (str ''http://a.b''))],
                JObj [(str ''name'', JStr (str ''c'')), (str ''url'', JStr (str ''http://c.d''))]])"
    and "\<exists>lg out. validateV2ConfigData ext (JObj [(str ''teams'', JArr example_teams)]) = Inr (lg, Some out)
          \<and> get_prop out (str ''teams'') = Some (JArr
               [JObj [(str ''name'', JStr (str ''a'')), (str ''url'', JStr (str ''http://a.b''))],
                JObj [(str ''name'', JStr (str ''c'')), (str ''url'', JStr (str ''http://c.d''))]])"
    and "\<exists>lg out. validateV3ConfigData ext (JObj [(str ''teams'', JArr example_teams)]) = Inr (lg, Some out)
          \<and> get_prop out (str ''teams'') = Some (JArr
               [JObj [(str ''name'', JStr (str ''a'')), (str ''url'', JStr (str ''http://a.b'')),
                      (str ''lastActiveTab'', JNum 0), (str ''tabs'', JArr [])],
                JObj [(str ''name'', JStr (str ''c'')), (str ''url'', JStr (str ''http://c.d'')),
                      (str ''lastActiveTab'', JNum 0), (str ''tabs'', JArr [])]])"
  using assms
  by (simp_all add: example_teams_def str_simps cleanURL_examples validateV1ConfigData_def
      validateV2ConfigData_def validateV3ConfigData_def schema_defs builder_defs
      validateAgainstSchema_def validate_with_def replace_teams_def drop_spellCheckerURL_def
      has_valid_url_def MAX_SAFE_INTEGER_def is_integer_def locale_rx_default)

lemma returned_teams:
  "V \<in> {validateV1ConfigData, validateV2ConfigData, validateV3ConfigData} \<Longrightarrow>
   map_of kvs (str ''teams'') = Some (JArr ts) \<Longrightarrow> ts \<noteq> [] \<Longrightarrow>
   V ext (JObj kvs) = Inr (lg, Some out) \<Longrightarrow>
   \<exists>ts'. get_prop out (str ''teams'') = Some (JArr ts')
     \<and> list_all2 (\<lambda>t t'. get_prop t' (str ''name'') = get_prop t (str ''name'')
                     \<and> get_prop t' (str ''url'') = url_after_cleaning ext t) (filter (keeps ext) ts) ts'"
proof -
  assume V: "V \<in> {validateV1ConfigData, validateV2ConfigData, validateV3ConfigData}"
    and m: "map_of kvs (str ''teams'') = Some (JArr ts)" and ne: "ts \<noteq> []"
    and r: "V ext (JObj kvs) = Inr (lg, Some out)"
  from V consider "V = validateV1ConfigData" | "V = validateV2ConfigData" | "V = validateV3ConfigData"
    by blast
  then show ?thesis
  proof cases
    case 1
    obtain ks tks where s: "configDataSchemaV1 = Joi_object ks" and d: "distinct (map fst ks)"
      and tk: "(str ''teams'', joi_default (JArr []) (Joi_array_items (Joi_object tks))) \<in> set ks"
      and dt: "distinct (map fst tks)"
      and nm: "(str ''name'', joi_required Joi_string) \<in> set tks"
      and ur: "(str ''url'', joi_required Joi_string) \<in> set tks"
      using V1_teams_shape by (elim exE conjE) (rule that)
    from r[unfolded 1] obtain d1 where r1: "replace_teams ext (clean_team_v1 ext) (JObj kvs) = Inr d1"
      and v: "validateAgainstSchema ext d1 (Some (Joi_object ks)) = (lg, Some out)"
      unfolding validateV1ConfigData_def s by (auto split: sum.splits)
    show ?thesis by (rule v1_teams[OF d tk dt nm ur m ne r1 v])
  next
    case 2
    obtain ks tks where s: "configDataSchemaV2 = Joi_object ks" and d: "distinct (map fst ks)"
      and tk: "(str ''teams'', joi_default (JArr []) (Joi_array_items (Joi_object tks))) \<in> set ks"
      and dt: "distinct (map fst tks)"
      and nm: "(str ''name'', joi_required Joi_string) \<in> set tks"
      and ur: "(str ''url'', joi_required Joi_string) \<in> set tks"
      using V2_teams_shape by (elim exE conjE) (rule that)
    show ?thesis
      by (rule config_run_teams[OF d tk dt nm ur m ne r[unfolded 2 validateV2ConfigData_run s]])
  next
    case 3
    obtain ks tks where s: "configDataSchemaV3 = Joi_object ks" and d: "distinct (map fst ks)"
      and tk: "(str ''teams'', joi_default (JArr []) (Joi_array_items (Joi_object tks))) \<in> set ks"
      and dt: "distinct (map fst tks)"
      and nm: "(str ''name'', joi_required Joi_string) \<in> set tks"
      and ur: "(str ''url'', joi_required Joi_string) \<in> set tks"
      using V3_teams_shape by (elim exE conjE) (rule that)
    show ?thesis
      by (rule config_run_teams[OF d tk dt nm ur m ne r[unfolded 3 validateV3ConfigData_run s]])
  qed
qed

text \<open>
  C1. Let \<open>teams\<close> be a non-empty array given to version 1, 2 or 3. When every team is an
  object whose url is a string the call returns. Whenever the call returns, its outcome
  is the outcome on the same record with the teams removed whose url is not valid after
  the backslash correction: such a team is dropped and never makes the result null. The
  teams of a returned record are, in the original order, the teams whose corrected url
  is valid: each has the name of its input team and the corrected url, and a team whose
  corrected url is not valid has no counterpart. For the three example teams every
  version returns a record, whose teams are the first and the third.
\<close>

theorem invalid_teams_dropped:
  "(V \<in> {validateV1ConfigData, validateV2ConfigData, validateV3ConfigData}
      \<and> map_of kvs (str ''teams'') = Some (JArr ts) \<and> ts \<noteq> [] \<longrightarrow>
      (list_all team_with_url ts \<longrightarrow> (\<exists>r. V ext (JObj kvs) = Inr r))
    \<and> ((\<exists>r. V ext (JObj kvs) = Inr r) \<longrightarrow>
          V ext (JObj (AList.update (str ''teams'') (JArr (filter (keeps ext) ts)) kvs))
            = V ext (JObj kvs))
    \<and> (\<forall>lg out. V ext (JObj kvs) = Inr (lg, Some out) \<longrightarrow>
          (\<exists>ts'. get_prop out (str ''teams'') = Some (JArr ts')
             \<and> list_all2 (\<lambda>t t'. get_prop t' (str ''name'') = get_prop t (str ''name'')
                             \<and> get_prop t' (str ''url'') = url_after_cleaning ext t)
                  (filter (keeps ext) ts) ts')))
   \<and> (isValidURL ext (JStr (str ''http://a.b'')) \<and> \<not> isValidURL ext (JStr (str ''bad url''))
      \<and> isValidURL ext (JStr (str ''http://c.d'')) \<longrightarrow>
      (\<exists>lg out. validateV1ConfigData ext (JObj [(str ''teams'', JArr example_teams)]) = Inr (lg, Some out)
          \<and> get_prop out (str ''teams'') = Some (JArr
               [JObj [(str ''name'', JStr (str ''a'')), (str ''url'', JStr (str ''http://a.b''))],
                JObj [(str ''name'', JStr (str ''c'')), (str ''url'', JStr (str ''http://c.d''))]]))
    \<and> (\<exists>lg out. validateV2ConfigData ext (JObj [(str ''teams'', JArr example_teams)]) = Inr (lg, Some out)
          \<and> get_prop out (str ''teams'') = Some (JArr
               [JObj [(str ''name'', JStr (str ''a'')), (str ''url'', JStr (str ''http://a.b''))],
                JObj [(str ''name'', JStr (str ''c'')), (str ''url'', JStr (str ''http://c.d''))]]))
    \<and> (\<exists>lg out. validateV3ConfigData ext (JObj [(str ''teams'', JArr example_teams)]) = Inr (lg, Some out)
          \<and> get_prop out (str ''teams'') = Some (JArr
               [JObj [(str ''name'', JStr (str ''a'')), (str ''url'', JStr (str ''http://a.b'')),
                      (str ''lastActiveTab'', JNum 0), (str ''tabs'', JArr [])],
                JObj [(str ''name'', JStr (str ''c'')), (str ''url'', JStr (str ''http://c.d'')),
                      (str ''lastActiveTab'', JNum 0), (str ''tabs'', JArr [])]])))"
proof (intro conjI impI allI)
  assume h: "V \<in> {validateV1ConfigData, validateV2ConfigData, validateV3ConfigData}
      \<and> map_of kvs (str ''teams'') = Some (JArr ts) \<and> ts \<noteq> []"
  assume a: "list_all team_with_url ts"
  have "\<forall>ts'. get_prop (JObj kvs) (str ''teams'') = Some (JArr ts') \<longrightarrow> list_all team_with_url ts'"
    using h a by simp
  with h show "\<exists>r. V ext (JObj kvs) = Inr r"
    by (intro config_validator_returns) simp_all
next
  assume h: "V \<in> {validateV1ConfigData, validateV2ConfigData, validateV3ConfigData}
      \<and> map_of kvs (str ''teams'') = Some (JArr ts) \<and> ts \<noteq> []"
  assume "\<exists>r. V ext (JObj kvs) = Inr r"
  then obtain r where "V ext (JObj kvs) = Inr r" by blast
  with h show "V ext (JObj (AList.update (str ''teams'') (JArr (filter (keeps ext) ts)) kvs))
            = V ext (JObj kvs)"
    by (intro bad_teams_removed_same_outcome) simp_all
next
  fix lg out
  assume h: "V \<in> {validateV1ConfigData, validateV2ConfigData, validateV3ConfigData}
      \<and> map_of kvs (str ''teams'') = Some (JArr ts) \<and> ts \<noteq> []"
  assume r: "V ext (JObj kvs) = Inr (lg, Some out)"
  from h have V: "V \<in> {validateV1ConfigData, validateV2ConfigData, validateV3ConfigData}"
    and m: "map_of kvs (str ''teams'') = Some (JArr ts)" and ne: "ts \<noteq> []" by simp_all
  show "\<exists>ts'. get_prop out (str ''teams'') = Some (JArr ts')
             \<and> list_all2 (\<lambda>t t'. get_prop t' (str ''name'') = get_prop t (str ''name'')
                             \<and> get_prop t' (str ''url'') = url_after_cleaning ext t)
                  (filter (keeps ext) ts) ts'"
    by (rule returned_teams[OF V m ne r])
next
  assume e: "isValidURL ext (JStr (str ''http://a.b'')) \<and> \<not> isValidURL ext (JStr (str ''bad url''))
      \<and> isValidURL ext (JStr (str ''http://c.d''))"
  then show "\<exists>lg out. validateV1ConfigData ext (JObj [(str ''teams'', JArr example_teams)]) = Inr (lg, Some out)
          \<and> get_prop out (str ''teams'') = Some (JArr
               [JObj [(str ''name'', JStr (str ''a'')), (str ''url'', JStr (str ''http://a.b''))],
                JObj [(str ''name'', JStr (str ''c'')), (str ''url'', JStr (str ''http://c.d''))]])"
    by (intro example_teams_outcome(1)) simp_all
next
  assume e: "isValidURL ext (JStr (str ''http://a.b'')) \<and> \<not> isValidURL ext (JStr (str ''bad url''))
      \<and> isValidURL ext (JStr (str ''http://c.d''))"
  then show "\<exists>lg out. validateV2ConfigData ext (JObj [(str ''teams'', JArr example_teams)]) = Inr (lg, Some out)
          \<and> get_prop out (str ''teams'') = Some (JArr
               [JObj [(str ''name'', JStr (str ''a'')), (str ''url'', JStr (str ''http://a.b''))],
                JObj [(str ''name'', JStr (str ''c'')), (str ''url'', JStr (str ''http://c.d''))]])"
    by (intro example_teams_outcome(2)) simp_all
next
  assume e: "isValidURL ext (JStr (str ''http://a.b'')) \<and> \<not> isValidURL ext (JStr (str ''bad url''))
      \<and> isValidURL ext (JStr (str ''http://c.d''))"
  then show "\<exists>lg out. validateV3ConfigData ext (JObj [(str ''teams'', JArr example_teams)]) = Inr (lg, Some out)
          \<and> get_prop out (str ''teams'') = Some (JArr
               [JObj [(str ''name'', JStr (str ''a'')), (str ''url'', JStr (str ''http://a.b'')),
                      (str ''lastActiveTab'', JNum 0), (str ''tabs'', JArr [])],
                JObj [(str ''name'', JStr (str ''c'')), (str ''url'', JStr (str ''http://c.d'')),
                      (str ''lastActiveTab'', JNum 0), (str ''tabs'', JArr [])]])"
    by (intro example_teams_outcome(3)) simp_all
qed

theorem invalid_teams_dropped_witness:
  "list_all team_with_url example_teams
   \<and> filter (keeps sample_externals) example_teams = [example_teams ! 0, example_teams ! 2]
   \<and> validateV1ConfigData sample_externals
        (JObj (AList.update (str ''teams'') (JArr (filter (keeps sample_externals) example_teams))
                 [(str ''teams'', JArr example_teams)]))
      = validateV1ConfigData sample_externals (JObj [(str ''teams'', JArr example_teams)])
   \<and> validateV2ConfigData sample_externals
        (JObj (AList.update (str ''teams'') (JArr (filter (keeps sample_externals) example_teams))
                 [(str ''teams'', JArr example_teams)]))
      = validateV2ConfigData sample_externals (JObj [(str ''teams'', JArr example_teams)])
   \<and> validateV3ConfigData sample_externals
        (JObj (AList.update (str ''teams'') (JArr (filter (keeps sample_externals) example_teams))
                 [(str ''teams'', JArr example_teams)]))
      = validateV3ConfigData sample_externals (JObj [(str ''teams'', JArr example_teams)])
   \<and> (\<exists>lg out. validateV1ConfigData sample_externals (JObj [(str ''teams'', JArr example_teams)])
          = Inr (lg, Some out)
        \<and> get_prop out (str ''teams'') = Some (JArr
             [JObj [(str ''name'', JStr (str ''a'')), (str ''url'', JStr (str ''http://a.b''))],
              JObj [(str ''name'', JStr (str ''c'')), (str ''url'', JStr (str ''http://c.d''))]]))
   \<and> (\<exists>lg out. validateV2ConfigData sample_externals (JObj [(str ''teams'', JArr example_teams)])
          = Inr (lg, Some out)
        \<and> get_prop out (str ''teams'') = Some (JArr
             [JObj [(str ''name'', JStr (str ''a'')), (str ''url'', JStr (str ''http://a.b''))],
              JObj [(str ''name'', JStr (str ''c'')), (str ''url'', JStr (str ''http://c.d''))]]))
   \<and> (\<exists>lg out. validateV3ConfigData sample_externals (JObj [(str ''teams'', JArr example_teams)])
          = Inr (lg, Some out)
        \<and> get_prop out (str ''teams'') = Some (JArr
             [JObj [(str ''name'', JStr (str ''a'')), (str ''url'', JStr (str ''http://a.b'')),
                    (str ''lastActiveTab'', JNum 0), (str ''tabs'', JArr [])],
              JObj [(str ''name'', JStr (str ''c'')), (str ''url'', JStr (str ''http://c.d'')),
                    (str ''lastActiveTab'', JNum 0), (str ''tabs'', JArr [])]]))"
proof -
  let ?kvs = "[(str ''teams'', JArr example_teams)]"
  have tw: "list_all team_with_url example_teams"
    by (simp add: example_teams_def team_with_url_def str_simps)
  have k: "filter (keeps sample_externals) example_teams = [example_teams ! 0, example_teams ! 2]"
    by (simp add: example_teams_def keeps_def url_after_cleaning_def sample_externals_def
        cleanURL_examples str_simps)
  have m: "map_of ?kvs (str ''teams'') = Some (JArr example_teams)" by simp
  have ne: "example_teams \<noteq> []" by (simp add: example_teams_def)
  have e: "isValidURL sample_externals (JStr (str ''http://a.b''))
      \<and> \<not> isValidURL sample_externals (JStr (str ''bad url''))
      \<and> isValidURL sample_externals (JStr (str ''http://c.d''))"
    by (simp add: sample_externals_def str_simps)
  note t = invalid_teams_dropped[where ext = sample_externals and kvs = ?kvs and ts = example_teams]
  have same: "V sample_externals
        (JObj (AList.update (str ''teams'') (JArr (filter (keeps sample_externals) example_teams)) ?kvs))
      = V sample_externals (JObj ?kvs)"
    if V: "V \<in> {validateV1ConfigData, validateV2ConfigData, validateV3ConfigData}" for V
  proof -
    from V m ne have h: "V \<in> {validateV1ConfigData, validateV2ConfigData, validateV3ConfigData}
      \<and> map_of ?kvs (str ''teams'') = Some (JArr example_teams) \<and> example_teams \<noteq> []" by blast
    note g = t[where V = V, THEN conjunct1, THEN mp, OF h]
    from g[THEN conjunct1, THEN mp, OF tw] have "\<exists>r. V sample_externals (JObj ?kvs) = Inr r" .
    from g[THEN conjunct2, THEN conjunct1, THEN mp, OF this] show ?thesis .
  qed
  note ex = t[where V = validateV1ConfigData, THEN conjunct2, THEN mp, OF e]
  show ?thesis
    by (intro conjI tw k same ex[THEN conjunct1] ex[THEN conjunct2, THEN conjunct1]
        ex[THEN conjunct2, THEN conjunct2]) simp_all
qed

section \<open>Idempotence\<close>

lemma idem_validate_with:
  assumes co_a: "\<And>a. a \<in> set (allowed f) \<Longrightarrow> co a = Inr a"
    and co_b: "\<And>v w. bs v = Inr w \<Longrightarrow> co w = Inr w"
    and bs: "\<And>v w. bs v = Inr w \<Longrightarrow> bs w = Inr w"
    and df: "presence f = Optional \<Longrightarrow> validate_with ext f co bs (dflt f) = Inr (dflt f)"
  shows "idem (validate_with ext f co bs)"
  unfolding idem_def
proof (intro allI impI)
  fix item r
  assume a: "validate_with ext f co bs item = Inr r"
  show "validate_with ext f co bs r = Inr r"
  proof (cases item)
    case None
    with a have "presence f = Optional" and "r = dflt f"
      by (auto simp: validate_with_def split: presence.splits)
    with df show ?thesis by simp
  next
    case (Some v)
    with a obtain v1 where c: "co v = Inr v1"
      by (auto simp: validate_with_def split: sum.splits)
    show ?thesis
    proof (cases "v1 \<in> set (allowed f)")
      case True
      with a Some c have "r = Some v1" by (simp add: validate_with_def)
      with True co_a[OF True] show ?thesis by (simp add: validate_with_def)
    next
      case False
      with a Some c obtain v2 where no: "\<not> only f" and b: "bs v1 = Inr v2"
        and ru: "check_rules ext (rules f) v2 = None" and r: "r = Some v2"
        by (auto simp: validate_with_def split: if_splits sum.splits option.splits)
      from co_b[OF b] bs[OF b] no ru r show ?thesis
        by (simp add: validate_with_def)
    qed
  qed
qed

lemma base_boolean_idem:
  "base_boolean v = Inr w \<Longrightarrow> base_boolean w = Inr w \<and> coerce_boolean ext w = Inr w"
  by (cases v) auto

lemma base_number_idem:
  "base_number v = Inr w \<Longrightarrow> base_number w = Inr w \<and> coerce_num ext w = Inr w"
  by (cases v) (auto split: if_splits)

lemma base_string_idem: "base_string v = Inr w \<Longrightarrow> base_string w = Inr w"
  by (cases v) (auto split: if_splits)

lemma validate_items_idem:
  assumes "idem c" and "validate_items c xs = Inr ys"
  shows "validate_items c ys = Inr ys"
  using assms(2)
proof (induction xs arbitrary: ys)
  case Nil
  then show ?case by simp
next
  case (Cons x xs)
  from Cons.prems obtain y ys' where y: "c (Some x) = Inr (Some y)"
    and r: "validate_items c xs = Inr ys'" and ys: "ys = y # ys'"
    by (auto split: sum.splits option.splits)
  from assms(1) y have "c (Some y) = Inr (Some y)" unfolding idem_def by blast
  with Cons.IH[OF r] ys show ?case by simp
qed

lemma base_array_idem:
  assumes "idem c" and "base_array c v = Inr w"
  shows "base_array c w = Inr w"
proof -
  from assms(2) obtain xs ys where "v = JArr xs" "validate_items c xs = Inr ys" "w = JArr ys"
    by (cases v) (auto split: sum.splits)
  with validate_items_idem[OF assms(1)] show ?thesis by simp
qed

lemma base_object_idem:
  assumes d: "distinct (map fst cs)" and ch: "\<forall>kc \<in> set cs. idem (snd kc)"
    and b: "base_object cs [] v = Inr w"
  shows "base_object cs [] w = Inr w"
proof -
  from b obtain kvs kvs1 where v: "v = JObj kvs" and k1: "validate_keys cs kvs = Inr kvs1"
    and w: "w = JObj (filter (\<lambda>kv. fst kv \<in> set (map fst cs)) kvs1)"
    by (cases v) (auto simp: validate_unknown_no_patterns split: sum.splits)
  let ?out = "filter (\<lambda>kv. fst kv \<in> set (map fst cs)) kvs1"
  from validate_keys_result[OF d k1]
  have r: "\<forall>(k, c) \<in> set cs. c (map_of kvs k) = Inr (map_of kvs1 k)" by blast
  have "\<forall>(k, c) \<in> set cs. c (map_of ?out k) = Inr (map_of ?out k)"
  proof clarify
    fix k c assume kc: "(k, c) \<in> set cs"
    then have m: "map_of ?out k = map_of kvs1 k"
      using map_of_filter_keys[of "set (map fst cs)" kvs1 k] by force
    from r kc have "c (map_of kvs k) = Inr (map_of kvs1 k)" by blast
    moreover from ch kc have "idem c" by force
    ultimately have "c (map_of kvs1 k) = Inr (map_of kvs1 k)" unfolding idem_def by blast
    with m show "c (map_of ?out k) = Inr (map_of ?out k)" by simp
  qed
  from validate_keys_fixed[OF this] w show ?thesis
    by (simp add: validate_unknown_no_patterns)
qed

lemma default_stableD:
  "default_stable ext s \<Longrightarrow> presence (flags_of s) = Optional \<Longrightarrow>
   validate ext s (dflt (flags_of s)) = Inr (dflt (flags_of s))"
  by (simp add: default_stable_def)

lemma stable_idem: "stable_schema ext s \<Longrightarrow> idem (validate ext s)"
proof (induction s)
  case (Any f)
  then show ?case
    using default_stableD[of ext "Any f"] by (auto intro!: idem_validate_with)
next
  case (Boolean f)
  then show ?case
    using default_stableD[of ext "Boolean f"]
    by (auto intro!: idem_validate_with dest: base_boolean_idem)
next
  case (Number f)
  then show ?case
    using default_stableD[of ext "Number f"]
    by (auto intro!: idem_validate_with dest: base_number_idem)
next
  case (String f)
  then show ?case
    using default_stableD[of ext "String f"]
    by (auto intro!: idem_validate_with dest: base_string_idem)
next
  case (Array f s)
  then have i: "idem (validate ext s)" by simp
  from Array.prems have df: "default_stable ext (Array f s)" by simp
  show ?case
    unfolding validate.simps
    by (rule idem_validate_with)
       (use default_stableD[OF df] base_array_idem[OF i] in auto)
next
  case (Object f ks ps)
  let ?cs = "map (map_prod id (validate ext)) ks"
  from Object.prems have ps: "ps = []" by simp
  from Object.prems have d: "distinct (map fst ks)"
    and st: "list_all snd (map (map_prod id (stable_schema ext)) ks)"
    and df: "default_stable ext (Object f ks [])" by (simp_all add: ps)
  have d': "distinct (map fst ?cs)" using d by (simp add: comp_def)
  have ch: "\<forall>kc \<in> set ?cs. idem (snd kc)"
  proof
    fix kc assume "kc \<in> set ?cs"
    then obtain k s where ks: "(k, s) \<in> set ks" and kc: "kc = (k, validate ext s)" by auto
    from st ks have "stable_schema ext s" by (force simp: list_all_iff)
    with Object.IH(1)[of "(k, s)" s] ks kc show "idem (snd kc)" by simp
  qed
  show ?case
    unfolding validate.simps ps list.map
    by (rule idem_validate_with)
       (use default_stableD[OF df] base_object_idem[OF d' ch] ps in auto)
qed

lemma V1_stable: "stable_schema ext configDataSchemaV1"
  by (simp add: str_simps locale_rx_default schema_defs builder_defs default_stable_def
      validate_with_def MAX_SAFE_INTEGER_def is_integer_def)

lemma V2_stable: "stable_schema ext configDataSchemaV2"
  by (simp add: str_simps locale_rx_default schema_defs builder_defs default_stable_def
      validate_with_def MAX_SAFE_INTEGER_def is_integer_def)

lemma V3_stable: "stable_schema ext configDataSchemaV3"
  by (simp add: str_simps locale_rx_default schema_defs builder_defs default_stable_def
      validate_with_def MAX_SAFE_INTEGER_def is_integer_def)

lemma cleanURL_idem: "cleanURL ext (cleanURL ext u) = cleanURL ext u"
  by (simp add: cleanURL_def includes_unit no_backslash_after_replace)

lemma clean_value_string_fixed: "clean_value ext v = Inr (JStr s) \<Longrightarrow> cleanURL ext s = s"
  by (cases "(ext, v)" rule: clean_value.cases) (auto simp: cleanURL_idem split: if_splits)

lemma required_string_out:
  "validate ext (joi_required Joi_string) v = Inr r \<Longrightarrow> \<exists>s. r = Some (JStr s)"
  by (cases v)
     (auto simp: builder_defs validate_with_def split: sum.splits if_splits json.splits
       elim!: base_string.elims)

lemma validate_Joi_object_out:
  "validate ext (Joi_object ks) (Some x) = Inr (Some y) \<Longrightarrow> \<exists>xkvs ykvs. x = JObj xkvs \<and> y = JObj ykvs"
  by (cases x) (auto simp: Joi_object_def no_flags_def validate_with_def split: sum.splits)

lemma clean_team_ok_fixed:
  assumes "clean_team_ok ext y"
  shows "(clean_team ext) y = Inr y" and "has_valid_url ext y"
proof -
  from assms obtain ykvs s where y: "y = JObj ykvs" "map_of ykvs (str ''url'') = Some (JStr s)"
    "cleanURL ext s = s" "isValidURL ext (JStr s)" unfolding clean_team_ok_def by blast
  then show "(clean_team ext) y = Inr y" by (simp add: str_simps AList.update_triv)
  from y show "has_valid_url ext y" by (simp add: str_simps has_valid_url_def)
qed

lemma map_throw_fixed: "(\<forall>x \<in> set xs. f x = Inr x) \<Longrightarrow> map_throw f xs = Inr xs"
  by (induction xs) auto

lemma replace_teams_fixed:
  assumes "map_of okvs (str ''teams'') = Some (JArr ys)"
    and "\<forall>y \<in> set ys. cb y = Inr y \<and> has_valid_url ext y"
  shows "replace_teams ext cb (JObj okvs) = Inr (JObj okvs)"
proof (cases ys)
  case Nil
  with assms(1) show ?thesis by (simp add: str_simps replace_teams_def)
next
  case (Cons y ys')
  from assms(2) have m: "map_throw cb ys = Inr ys" by (intro map_throw_fixed) (simp add: str_simps)
  from assms(2) have f: "filter (has_valid_url ext) ys = ys" by (simp add: str_simps filter_id_conv)
  from assms(1) Cons m f show ?thesis
    by (simp add: str_simps replace_teams_def AList.update_triv)
qed

lemma list_all2_right:
  "list_all2 R xs ys \<Longrightarrow> y \<in> set ys \<Longrightarrow> \<exists>x \<in> set xs. R x y"
  by (induction rule: list_all2_induct) auto

lemma map_throw_source: "map_throw f xs = Inr ys \<Longrightarrow> y \<in> set ys \<Longrightarrow> \<exists>x \<in> set xs. f x = Inr y"
  by (induction xs arbitrary: ys) (auto split: sum.splits)

lemma team_item_url_string:
  assumes dt: "distinct (map fst tks)"
    and ur: "(str ''url'', joi_required Joi_string) \<in> set tks"
    and v: "validate ext (Joi_object tks) (Some x) = Inr (Some y)"
  shows "\<exists>ykvs s. y = JObj ykvs \<and> map_of ykvs (str ''url'') = Some (JStr s)
           \<and> get_prop x (str ''url'') = Some (JStr s)"
proof -
  from validate_Joi_object_out[OF v] obtain xkvs ykvs where x: "x = JObj xkvs" and y: "y = JObj ykvs"
    by blast
  from v[unfolded x] have "validateAgainstSchema ext (JObj xkvs) (Some (Joi_object tks)) = ([], Some y)"
    by (simp add: str_simps validateAgainstSchema_def)
  from validateAgainstSchema_child[OF dt this ur]
  have c: "validate ext (joi_required Joi_string) (map_of xkvs (str ''url'')) = Inr (get_prop y (str ''url''))" .
  from required_string_out[OF c] obtain s where s: "get_prop y (str ''url'') = Some (JStr s)" by blast
  from required_string_same[OF c] s have "map_of xkvs (str ''url'') = Some (JStr s)" by (simp add: str_simps)
  with x y s show ?thesis by (simp add: str_simps)
qed

lemma output_team_ok:
  assumes dt: "distinct (map fst tks)"
    and ur: "(str ''url'', joi_required Joi_string) \<in> set tks"
    and v: "validate ext (Joi_object tks) (Some x) = Inr (Some y)"
    and hv: "has_valid_url ext x"
    and cl: "clean_value ext w = Inr u" "get_prop x (str ''url'') = Some u"
  shows "clean_team_ok ext y"
proof -
  from team_item_url_string[OF dt ur v] obtain ykvs s where y: "y = JObj ykvs"
    "map_of ykvs (str ''url'') = Some (JStr s)" "get_prop x (str ''url'') = Some (JStr s)" by blast
  with cl have u: "u = JStr s" by (simp add: str_simps)
  from clean_value_string_fixed[OF cl(1)[unfolded u]] have "cleanURL ext s = s" .
  moreover from hv y(3) have "isValidURL ext (JStr s)" by (simp add: str_simps has_valid_url_def)
  ultimately show ?thesis using y unfolding clean_team_ok_def by blast
qed

lemma clean_team_url:
  assumes "(clean_team ext) t = Inr x"
  shows "\<exists>w u. clean_value ext w = Inr u \<and> get_prop x (str ''url'') = Some u"
  using assms
  by (cases "(ext, t)" rule: clean_team.cases) (auto simp: str_simps AList.update_conv' split: sum.splits)

lemma teams_schema_result:
  assumes "validate ext (joi_default (JArr []) (Joi_array_items s)) T = Inr r"
  shows "(T = None \<and> r = Some (JArr []))
       \<or> (\<exists>fs ys. T = Some (JArr fs) \<and> r = Some (JArr ys) \<and> validate_items (validate ext s) fs = Inr ys)"
proof (cases T)
  case None
  with assms show ?thesis
    by (simp add: joi_default_def Joi_array_items_def no_flags_def validate_with_def)
next
  case (Some v)
  with assms show ?thesis
    by (cases v)
       (auto simp: joi_default_def Joi_array_items_def no_flags_def validate_with_def
         split: sum.splits)
qed

text \<open>The teams of a returned record pass the first block unchanged.\<close>

lemma output_teams_fixed:
  assumes d: "distinct (map fst ks)"
    and tk: "(str ''teams'', joi_default (JArr []) (Joi_array_items (Joi_object tks))) \<in> set ks"
    and dt: "distinct (map fst tks)"
    and ur: "(str ''url'', joi_required Joi_string) \<in> set tks"
    and cb: "\<And>t x. cb t = Inr x \<Longrightarrow> \<exists>w u. clean_value ext w = Inr u \<and> get_prop x (str ''url'') = Some u"
    and r: "replace_teams ext cb (JObj kvs) = Inr (JObj kvs1)"
    and t2: "map_of kvs2 (str ''teams'') = map_of kvs1 (str ''teams'')"
    and v: "validateAgainstSchema ext (JObj kvs2) (Some (Joi_object ks)) = (lg2, Some (JObj okvs))"
  shows "\<exists>ys. map_of okvs (str ''teams'') = Some (JArr ys) \<and> (\<forall>y \<in> set ys. clean_team_ok ext y)"
proof -
  from validateAgainstSchema_child[OF d v tk]
  have "validate ext (joi_default (JArr []) (Joi_array_items (Joi_object tks))) (map_of kvs2 (str ''teams''))
      = Inr (map_of okvs (str ''teams''))" by (simp add: str_simps)
  from teams_schema_result[OF this]
  consider "map_of okvs (str ''teams'') = Some (JArr [])"
    | fs ys where "map_of kvs2 (str ''teams'') = Some (JArr fs)" "map_of okvs (str ''teams'') = Some (JArr ys)"
        "validate_items (validate ext (Joi_object tks)) fs = Inr ys" "ys \<noteq> []"
    by (metis validate_items.simps(1) sum.inject(2))
  then show ?thesis
  proof cases
    case 1
    then show ?thesis by (simp add: str_simps)
  next
    case 2
    from 2(3,4) have fne: "fs \<noteq> []" by (auto simp: str_simps)
    have src: "\<exists>ts cs. map_throw cb ts = Inr cs \<and> fs = filter (has_valid_url ext) cs"
    proof (cases "\<exists>ts. map_of kvs (str ''teams'') = Some (JArr ts) \<and> ts \<noteq> []")
      case True
      then obtain ts where ts: "map_of kvs (str ''teams'') = Some (JArr ts)" "ts \<noteq> []" by blast
      from replace_teams_nonempty[OF ts r] obtain cs where cs: "map_throw cb ts = Inr cs"
        and k1: "kvs1 = AList.update (str ''teams'') (JArr (filter (has_valid_url ext) cs)) kvs" by (auto simp: str_simps)
      from t2 2(1) k1 have "fs = filter (has_valid_url ext) cs" by (simp add: str_simps AList.update_conv')
      with cs show ?thesis by blast
    next
      case False
      then have "replace_teams ext cb (JObj kvs) = Inr (JObj kvs)"
        by (auto simp: str_simps replace_teams_def split: option.splits json.splits list.splits)
      with r have "kvs1 = kvs" by (simp add: str_simps)
      with t2 2(1) fne False show ?thesis by (simp add: str_simps)
    qed
    then obtain ts cs where cs: "map_throw cb ts = Inr cs" and fs: "fs = filter (has_valid_url ext) cs"
      by blast
    have "clean_team_ok ext y" if "y \<in> set ys" for y
    proof -
      from list_all2_right[OF validate_items_list_all2[OF 2(3)] that] obtain x where
        x: "x \<in> set fs" and vx: "validate ext (Joi_object tks) (Some x) = Inr (Some y)" by blast
      from x fs have hv: "has_valid_url ext x" and xc: "x \<in> set cs" by (auto simp: str_simps)
      from map_throw_source[OF cs xc] obtain t where "cb t = Inr x" by blast
      from cb[OF this] obtain w u where "clean_value ext w = Inr u" "get_prop x (str ''url'') = Some u" by blast
      from output_team_ok[OF dt ur vx hv this] show ?thesis .
    qed
    with 2(2) show ?thesis by blast
  qed
qed

lemma drop_spellCheckerURL_kept:
  assumes "drop_spellCheckerURL ext (JObj kvs1) = (lg, JObj kvs2)"
    and "map_of kvs2 (str ''spellCheckerURL'') = Some u" and "truthy (Some u)"
  shows "isValidURL ext u"
  using assms
  by (auto simp: str_simps drop_spellCheckerURL_def AList.delete_conv' split: option.splits if_splits)

lemma spellCheckerURL_schema_result:
  assumes "validate ext (joi_allow [JNull] Joi_string) v = Inr r"
  shows "r = v"
  using assms
  by (cases v)
     (auto simp: builder_defs validate_with_def split: sum.splits if_splits json.splits
       elim!: base_string.elims)

lemma output_spellCheckerURL_fixed:
  assumes d: "distinct (map fst ks)"
    and sp: "(str ''spellCheckerURL'', joi_allow [JNull] Joi_string) \<in> set ks"
    and dr: "drop_spellCheckerURL ext (JObj kvs1) = (lg1, JObj kvs2)"
    and v: "validateAgainstSchema ext (JObj kvs2) (Some (Joi_object ks)) = (lg2, Some (JObj okvs))"
  shows "drop_spellCheckerURL ext (JObj okvs) = ([], JObj okvs)"
proof -
  from validateAgainstSchema_child[OF d v sp]
  have "validate ext (joi_allow [JNull] Joi_string) (map_of kvs2 (str ''spellCheckerURL''))
      = Inr (map_of okvs (str ''spellCheckerURL''))" by (simp add: str_simps)
  from spellCheckerURL_schema_result[OF this]
  have same: "map_of okvs (str ''spellCheckerURL'') = map_of kvs2 (str ''spellCheckerURL'')" .
  show ?thesis
  proof (cases "map_of okvs (str ''spellCheckerURL'')")
    case None
    then show ?thesis by (simp add: str_simps drop_spellCheckerURL_def)
  next
    case (Some u)
    show ?thesis
    proof (cases "truthy (Some u)")
      case True
      from drop_spellCheckerURL_kept[OF dr same[symmetric, unfolded Some] True]
      have "isValidURL ext u" .
      with Some show ?thesis by (simp add: str_simps drop_spellCheckerURL_def)
    next
      case False
      with Some show ?thesis by (simp add: str_simps drop_spellCheckerURL_def)
    qed
  qed
qed

lemma validateAgainstSchema_idem:
  assumes st: "stable_schema ext s"
    and v: "validateAgainstSchema ext (JObj kvs) (Some s) = (lg, Some (JObj okvs))"
  shows "validateAgainstSchema ext (JObj okvs) (Some s) = ([], Some (JObj okvs))"
proof -
  from v have "validate ext s (Some (JObj kvs)) = Inr (Some (JObj okvs))"
    by (auto simp: validateAgainstSchema_def split: sum.splits)
  with stable_idem[OF st] have "validate ext s (Some (JObj okvs)) = Inr (Some (JObj okvs))"
    unfolding idem_def by blast
  then show ?thesis by (simp add: validateAgainstSchema_def)
qed

lemma config_run_object:
  assumes "config_run ext cb (Joi_object ks) d = Inr (lg, Some out)"
  shows "\<exists>kvs. d = JObj kvs"
  using assms
  by (cases d)
     (auto simp: config_run_def sanitize_def replace_teams_def drop_spellCheckerURL_def
       validateAgainstSchema_def Joi_object_def no_flags_def validate_with_def
       split: sum.splits prod.splits)

lemma config_run_idem:
  assumes d: "distinct (map fst ks)"
    and tk: "(str ''teams'', joi_default (JArr []) (Joi_array_items (Joi_object tks))) \<in> set ks"
    and dt: "distinct (map fst tks)"
    and ur: "(str ''url'', joi_required Joi_string) \<in> set tks"
    and sp: "(str ''spellCheckerURL'', joi_allow [JNull] Joi_string) \<in> set ks"
    and st: "stable_schema ext (Joi_object ks)"
    and r: "config_run ext (clean_team ext) (Joi_object ks) data = Inr (lg, Some out)"
  shows "config_run ext (clean_team ext) (Joi_object ks) out = Inr ([], Some out)"
proof -
  from config_run_object[OF r] obtain kvs where data: "data = JObj kvs" by blast
  from r[unfolded data] obtain lg1 d2 where
    sa: "sanitize ext (clean_team ext) (JObj kvs) = Inr (lg1, d2)"
    and sn: "snd (validateAgainstSchema ext d2 (Some (Joi_object ks))) = Some out"
    by (auto simp: str_simps config_run_def split: sum.splits prod.splits)
  from sa obtain d1 where r1: "replace_teams ext (clean_team ext) (JObj kvs) = Inr d1"
    and dr: "drop_spellCheckerURL ext d1 = (lg1, d2)"
    by (auto simp: str_simps sanitize_def split: sum.splits)
  from sn obtain lg2 where v: "validateAgainstSchema ext d2 (Some (Joi_object ks)) = (lg2, Some out)"
    by (cases "validateAgainstSchema ext d2 (Some (Joi_object ks))") (auto simp: str_simps)
  from replace_teams_object[OF r1] obtain kvs1 where d1: "d1 = JObj kvs1" by blast
  from drop_spellCheckerURL_object[OF dr[unfolded d1]] obtain kvs2 where d2: "d2 = JObj kvs2"
    and t2: "map_of kvs2 (str ''teams'') = map_of kvs1 (str ''teams'')" by (auto simp: str_simps)
  from validateAgainstSchema_result[OF d v[unfolded d2]] obtain okvs where out: "out = JObj okvs"
    by blast
  note v' = v[unfolded d2 out]
  have "\<exists>ys. map_of okvs (str ''teams'') = Some (JArr ys) \<and> (\<forall>y \<in> set ys. clean_team_ok ext y)"
    by (rule output_teams_fixed[where cb = "clean_team ext", OF d tk dt ur _ r1[unfolded d1] t2 v'])
       (rule clean_team_url)
  then obtain ys where ys: "map_of okvs (str ''teams'') = Some (JArr ys)" "\<forall>y \<in> set ys. clean_team_ok ext y"
    by blast
  have a: "replace_teams ext (clean_team ext) (JObj okvs) = Inr (JObj okvs)"
    by (rule replace_teams_fixed[OF ys(1)]) (use ys(2) clean_team_ok_fixed in blast)
  have b: "drop_spellCheckerURL ext (JObj okvs) = ([], JObj okvs)"
    by (rule output_spellCheckerURL_fixed[OF d sp dr[unfolded d1 d2] v'])
  have c: "validateAgainstSchema ext (JObj okvs) (Some (Joi_object ks)) = ([], Some (JObj okvs))"
    by (rule validateAgainstSchema_idem[OF st v'])
  show ?thesis unfolding out by (simp add: str_simps config_run_def sanitize_def a b c)
qed

lemma V1_team_item_fixed:
  assumes v: "validate ext (Joi_object [(str ''name'', joi_required Joi_string),
                 (str ''url'', joi_required Joi_string)]) (Some x) = Inr (Some y)"
    and c: "(clean_team_v1 ext) t = Inr x" and hv: "has_valid_url ext x"
  shows "(clean_team_v1 ext) y = Inr y \<and> has_valid_url ext y"
proof -
  have dt: "distinct (map fst [(str ''name'', joi_required Joi_string), (str ''url'', joi_required Joi_string)])"
    by (simp add: str_simps)
  from c obtain u where u: "clean_value ext (get_prop t (str ''url'')) = Inr u"
    and x: "x = JObj ((case get_prop t (str ''name'') of None \<Rightarrow> [] | Some n \<Rightarrow> [(str ''name'', n)]) @ [(str ''url'', u)])"
    by (cases "(ext, t)" rule: clean_team_v1.cases) (auto simp: str_simps split: sum.splits)
  from team_item_keeps_name_url[OF dt _ _ v] have
    same: "get_prop y (str ''name'') = get_prop x (str ''name'')" "get_prop y (str ''url'') = get_prop x (str ''url'')"
    by (simp_all add: str_simps)
  from team_item_url_string[OF dt _ v] obtain ykvs s where y: "y = JObj ykvs"
    and us: "get_prop x (str ''url'') = Some (JStr s)" by (auto simp: str_simps)
  from x us have u': "u = JStr s" by (simp add: str_simps split: option.splits)
  from clean_value_string_fixed[OF u[unfolded u']] have cs: "cleanURL ext s = s" .
  from v[unfolded x] obtain xkvs where "x = JObj xkvs" using x by blast
  from v have "validateAgainstSchema ext x (Some (Joi_object [(str ''name'', joi_required Joi_string),
                 (str ''url'', joi_required Joi_string)])) = ([], Some y)"
    using x by (simp add: str_simps validateAgainstSchema_def)
  from validateAgainstSchema_child[OF dt this[unfolded x], of "(str ''name'')" "joi_required Joi_string"]
  have "validate ext (joi_required Joi_string) (get_prop x (str ''name'')) = Inr (get_prop y (str ''name''))"
    using x by (simp add: str_simps)
  from required_string_out[OF this] same(1) obtain n where n: "get_prop x (str ''name'') = Some (JStr n)"
    by (auto simp: str_simps)
  with x u' have xs: "x = JObj [(str ''name'', JStr n), (str ''url'', JStr s)]"
    by (simp add: str_simps split: option.splits)
  from v[unfolded xs] have "y = x"
    unfolding xs
    by (simp add: str_simps builder_defs validate_with_def split: if_splits)
  with xs cs hv show ?thesis by (simp add: str_simps)
qed

lemma V1_shape:
  "\<exists>ks. configDataSchemaV1 = Joi_object ks \<and> distinct (map fst ks)
     \<and> (str ''teams'', joi_default (JArr []) (Joi_array_items (Joi_object
           [(str ''name'', joi_required Joi_string), (str ''url'', joi_required Joi_string)]))) \<in> set ks"
  unfolding configDataSchemaV1_def
  apply (intro exI conjI)
    apply (rule refl)
   apply (simp add: str_simps str_simps)
  apply (simp add: str_simps str_simps)
  done

lemma validateV1ConfigData_idem:
  assumes r: "validateV1ConfigData ext data = Inr (lg, Some out)"
  shows "validateV1ConfigData ext out = Inr ([], Some out)"
proof -
  let ?tks = "[(str ''name'', joi_required Joi_string), (str ''url'', joi_required Joi_string)]"
  obtain ks where s: "configDataSchemaV1 = Joi_object ks" and d: "distinct (map fst ks)"
    and tk: "(str ''teams'', joi_default (JArr []) (Joi_array_items (Joi_object ?tks))) \<in> set ks"
    using V1_shape by (elim exE conjE) (rule that)
  have st: "stable_schema ext (Joi_object ks)" using V1_stable[of ext] unfolding s .
  from r obtain d1 where r1: "replace_teams ext (clean_team_v1 ext) data = Inr d1"
    and v: "validateAgainstSchema ext d1 (Some (Joi_object ks)) = (lg, Some out)"
    unfolding validateV1ConfigData_def s by (auto simp: str_simps split: sum.splits)
  have "\<exists>kvs. data = JObj kvs"
    using r1 v
    by (cases data)
       (auto simp: str_simps replace_teams_def validateAgainstSchema_def Joi_object_def no_flags_def
         validate_with_def split: sum.splits)
  then obtain kvs where data: "data = JObj kvs" by blast
  from replace_teams_object[OF r1[unfolded data]] obtain kvs1 where d1: "d1 = JObj kvs1" by blast
  from validateAgainstSchema_result[OF d v[unfolded d1]] obtain okvs where out: "out = JObj okvs"
    by blast
  note v' = v[unfolded d1 out]
  from validateAgainstSchema_child[OF d v' tk]
  have "validate ext (joi_default (JArr []) (Joi_array_items (Joi_object ?tks))) (map_of kvs1 (str ''teams''))
      = Inr (map_of okvs (str ''teams''))" by (simp add: str_simps)
  from teams_schema_result[OF this]
  consider "map_of okvs (str ''teams'') = Some (JArr [])"
    | fs ys where "map_of kvs1 (str ''teams'') = Some (JArr fs)" "map_of okvs (str ''teams'') = Some (JArr ys)"
        "validate_items (validate ext (Joi_object ?tks)) fs = Inr ys" "ys \<noteq> []"
    by (metis validate_items.simps(1) sum.inject(2))
  then have a: "replace_teams ext (clean_team_v1 ext) (JObj okvs) = Inr (JObj okvs)"
  proof cases
    case 1
    then show ?thesis by (simp add: str_simps replace_teams_def)
  next
    case 2
    from 2(3,4) have fne: "fs \<noteq> []" by (auto simp: str_simps)
    have "\<exists>ts cs. map_throw (clean_team_v1 ext) ts = Inr cs \<and> fs = filter (has_valid_url ext) cs"
    proof (cases "\<exists>ts. map_of kvs (str ''teams'') = Some (JArr ts) \<and> ts \<noteq> []")
      case True
      then obtain ts where ts: "map_of kvs (str ''teams'') = Some (JArr ts)" "ts \<noteq> []" by blast
      from replace_teams_nonempty[OF ts r1[unfolded data d1]] obtain cs where
        cs: "map_throw (clean_team_v1 ext) ts = Inr cs"
        and k1: "kvs1 = AList.update (str ''teams'') (JArr (filter (has_valid_url ext) cs)) kvs" by (auto simp: str_simps)
      from 2(1) k1 have "fs = filter (has_valid_url ext) cs" by (simp add: str_simps AList.update_conv')
      with cs show ?thesis by blast
    next
      case False
      then have "replace_teams ext (clean_team_v1 ext) (JObj kvs) = Inr (JObj kvs)"
        by (auto simp: str_simps replace_teams_def split: option.splits json.splits list.splits)
      with r1 data d1 have "kvs1 = kvs" by (simp add: str_simps)
      with 2(1) fne False show ?thesis by (simp add: str_simps)
    qed
    then obtain ts cs where cs: "map_throw (clean_team_v1 ext) ts = Inr cs"
      and fs: "fs = filter (has_valid_url ext) cs" by blast
    have "(clean_team_v1 ext) y = Inr y \<and> has_valid_url ext y" if "y \<in> set ys" for y
    proof -
      from list_all2_right[OF validate_items_list_all2[OF 2(3)] that] obtain x where
        x: "x \<in> set fs" and vx: "validate ext (Joi_object ?tks) (Some x) = Inr (Some y)" by blast
      from x fs have hv: "has_valid_url ext x" and xc: "x \<in> set cs" by (auto simp: str_simps)
      from map_throw_source[OF cs xc] obtain t where "(clean_team_v1 ext) t = Inr x" by blast
      from V1_team_item_fixed[OF vx this hv] show ?thesis .
    qed
    then show ?thesis by (intro replace_teams_fixed[OF 2(2)]) blast
  qed
  have c: "validateAgainstSchema ext (JObj okvs) (Some (Joi_object ks)) = ([], Some (JObj okvs))"
    by (rule validateAgainstSchema_idem[OF st v'])
  show ?thesis unfolding out validateV1ConfigData_def s by (simp add: str_simps a c)
qed

lemma V2_idem_shape:
  "\<exists>ks tks. configDataSchemaV2 = Joi_object ks \<and> distinct (map fst ks)
     \<and> (str ''teams'', joi_default (JArr []) (Joi_array_items (Joi_object tks))) \<in> set ks
     \<and> distinct (map fst tks)
     \<and> (str ''url'', joi_required Joi_string) \<in> set tks
     \<and> (str ''spellCheckerURL'', joi_allow [JNull] Joi_string) \<in> set ks"
  unfolding configDataSchemaV2_def
  apply (intro exI conjI)
       apply (rule refl)
      apply (simp add: str_simps str_simps)
     apply (simp add: str_simps str_simps)
    apply (simp add: str_simps str_simps)
   apply (simp add: str_simps str_simps)
  apply (simp add: str_simps str_simps)
  done

lemma V3_idem_shape:
  "\<exists>ks tks. configDataSchemaV3 = Joi_object ks \<and> distinct (map fst ks)
     \<and> (str ''teams'', joi_default (JArr []) (Joi_array_items (Joi_object tks))) \<in> set ks
     \<and> distinct (map fst tks)
     \<and> (str ''url'', joi_required Joi_string) \<in> set tks
     \<and> (str ''spellCheckerURL'', joi_allow [JNull] Joi_string) \<in> set ks"
  unfolding configDataSchemaV3_def
  apply (intro exI conjI)
       apply (rule refl)
      apply (simp add: str_simps str_simps)
     apply (simp add: str_simps str_simps)
    apply (simp add: str_simps str_simps)
   apply (simp add: str_simps str_simps)
  apply (simp add: str_simps str_simps)
  done

text \<open>
  C4. Whenever version 1, 2 or 3 returns a normalized record, validating that record
  again returns the same record, and logs nothing.
\<close>

theorem validation_idempotent:
  "V \<in> {validateV1ConfigData, validateV2ConfigData, validateV3ConfigData} \<Longrightarrow>
   V ext r = Inr (lg, Some out) \<Longrightarrow> V ext out = Inr ([], Some out)"
proof -
  assume V: "V \<in> {validateV1ConfigData, validateV2ConfigData, validateV3ConfigData}"
    and r: "V ext r = Inr (lg, Some out)"
  from V consider "V = validateV1ConfigData" | "V = validateV2ConfigData" | "V = validateV3ConfigData"
    by blast
  then show ?thesis
  proof cases
    case 1
    with r show ?thesis by (simp add: str_simps validateV1ConfigData_idem)
  next
    case 2
    obtain ks tks where s: "configDataSchemaV2 = Joi_object ks" and d: "distinct (map fst ks)"
      and tk: "(str ''teams'', joi_default (JArr []) (Joi_array_items (Joi_object tks))) \<in> set ks"
      and dt: "distinct (map fst tks)"
      and ur: "(str ''url'', joi_required Joi_string) \<in> set tks"
      and sp: "(str ''spellCheckerURL'', joi_allow [JNull] Joi_string) \<in> set ks"
      using V2_idem_shape by (elim exE conjE) (rule that)
    have st: "stable_schema ext (Joi_object ks)" using V2_stable[of ext] unfolding s .
    show ?thesis
      unfolding 2 validateV2ConfigData_run s
      by (rule config_run_idem[OF d tk dt ur sp st r[unfolded 2 validateV2ConfigData_run s]])
  next
    case 3
    obtain ks tks where s: "configDataSchemaV3 = Joi_object ks" and d: "distinct (map fst ks)"
      and tk: "(str ''teams'', joi_default (JArr []) (Joi_array_items (Joi_object tks))) \<in> set ks"
      and dt: "distinct (map fst tks)"
      and ur: "(str ''url'', joi_required Joi_string) \<in> set tks"
      and sp: "(str ''spellCheckerURL'', joi_allow [JNull] Joi_string) \<in> set ks"
      using V3_idem_shape by (elim exE conjE) (rule that)
    have st: "stable_schema ext (Joi_object ks)" using V3_stable[of ext] unfolding s .
    show ?thesis
      unfolding 3 validateV3ConfigData_run s
      by (rule config_run_idem[OF d tk dt ur sp st r[unfolded 3 validateV3ConfigData_run s]])
  qed
qed

theorem validation_idempotent_witness:
  "\<exists>lg out. validateV2ConfigData sample_externals
      (JObj [(str ''teams'', JArr
               [JObj [(str ''name'', JStr (str ''a'')), (str ''url'', JStr (str ''http://a.b'')), (str ''order'', JNum 1)],
                JObj [(str ''name'', JStr (str ''b'')), (str ''url'', JStr (str ''bad url''))],
                JObj [(str ''name'', JStr (str ''c'')), (str ''url'', JStr (str ''HTTP:'' @ [backslash, backslash] @ str ''C.d''))]]),
             (str ''spellCheckerURL'', JStr (str ''not a url'')),
             (str ''darkMode'', JStr (str ''TRUE'')),
             (str ''theme'', JNull)]) = Inr (lg, Some out)
     \<and> validateV2ConfigData sample_externals out = Inr ([], Some out)"
proof -
  let ?r = "JObj [(str ''teams'', JArr
               [JObj [(str ''name'', JStr (str ''a'')), (str ''url'', JStr (str ''http://a.b'')), (str ''order'', JNum 1)],
                JObj [(str ''name'', JStr (str ''b'')), (str ''url'', JStr (str ''bad url''))],
                JObj [(str ''name'', JStr (str ''c'')), (str ''url'', JStr (str ''HTTP:'' @ [backslash, backslash] @ str ''C.d''))]]),
             (str ''spellCheckerURL'', JStr (str ''not a url'')),
             (str ''darkMode'', JStr (str ''TRUE'')),
             (str ''theme'', JNull)]"
  have "returns_record (validateV2ConfigData sample_externals ?r)"
    by (simp add: str_simps cleanURL_examples toLowerCase_TRUE returns_record_def
        validateV2ConfigData_def schema_defs builder_defs run_defs)
  then obtain lg out where e: "validateV2ConfigData sample_externals ?r = Inr (lg, Some out)"
    unfolding returns_record_iff by blast
  have V: "validateV2ConfigData \<in> {validateV1ConfigData, validateV2ConfigData, validateV3ConfigData}"
    by (simp add: str_simps)
  from validation_idempotent[OF V e] e show ?thesis by blast
qed

end
